theory Spec2Isabelle
  imports Complex_Main "HOL-Library.Log_Nat"
begin

section \<open>Python strings\<close>

text \<open>
  A Python \<open>str\<close> is modelled as a \<open>string\<close> whose characters are the code points
  0 to 255 (Latin-1).  \<open>str.strip()\<close>, \<open>str.lower()\<close> and \<open>str.replace\<close> are the
  library functions the domain code calls; they are written out here for that range.
\<close>

definition py_whitespace :: "char list" where
  "py_whitespace =
     [CHR 0x09, CHR 0x0A, CHR 0x0B, CHR 0x0C, CHR 0x0D, CHR 0x1C, CHR 0x1D, CHR 0x1E,
      CHR 0x1F, CHR 0x20, CHR 0x85, CHR 0xA0]"

definition py_isspace :: "char \<Rightarrow> bool" where
  "py_isspace c = (c \<in> set py_whitespace)"

definition py_isupper :: "char \<Rightarrow> bool" where
  "py_isupper c =
     (let n = (of_char c :: nat)
      in (65 \<le> n \<and> n \<le> 90) \<or> (192 \<le> n \<and> n \<le> 222 \<and> n \<noteq> 215))"

definition py_lower_char :: "char \<Rightarrow> char" where
  "py_lower_char c = (if py_isupper c then char_of ((of_char c :: nat) + 32) else c)"

definition py_lower :: "string \<Rightarrow> string" where
  "py_lower s = map py_lower_char s"

definition py_strip :: "string \<Rightarrow> string" where
  "py_strip s = rev (dropWhile py_isspace (rev (dropWhile py_isspace s)))"

definition py_replace_char :: "char \<Rightarrow> char \<Rightarrow> string \<Rightarrow> string" where
  "py_replace_char old new s = map (\<lambda>c. if c = old then new else c) s"

definition py_remove_char :: "string \<Rightarrow> char \<Rightarrow> string" where
  "py_remove_char s ch = filter (\<lambda>c. c \<noteq> ch) s"

section \<open>Domain value object: Category\<close>

datatype error =
    ValueError string
  | RuntimeError string
  | ConversionError string
  | BackendError string

text \<open>
  \<open>Category\<close> is a frozen dataclass with the fields \<open>name\<close> and \<open>confidence\<close>.  The
  confidence is a Python float; it is only ever compared with 0.0 and 1.0, and is
  modelled as a rational number.
\<close>

datatype Category = Category (name: string) (confidence: rat)

text \<open>\<open>Category.__post_init__\<close>: the two checks, then the normalisation of the name.\<close>

definition Category_init :: "string \<Rightarrow> rat \<Rightarrow> error + Category" where
  "Category_init nm conf =
     (if nm = [] \<or> py_strip nm = [] then Inl (ValueError ''Category name cannot be empty'')
      else if 0 \<le> conf \<and> conf \<le> 1 then
        Inr (Category (py_replace_char (CHR '' '') (CHR ''_'') (py_lower (py_strip nm))) conf)
      else Inl (ValueError ''Confidence must be between 0.0 and 1.0''))"

definition punctuation :: "char list" where
  "punctuation = ''.,!?;:\"()[]{}''"

text \<open>\<open>Category.from_ai_response\<close>: the loop removes one punctuation character at a time.\<close>

definition from_ai_response :: "string \<Rightarrow> rat \<Rightarrow> error + Category" where
  "from_ai_response ai_response conf =
     Category_init (foldl py_remove_char (py_lower (py_strip ai_response)) punctuation) conf"

definition is_valid :: "Category \<Rightarrow> bool" where
  "is_valid c = (name c \<noteq> [] \<and> py_strip (name c) \<noteq> [])"

section \<open>Stitch rasterizer\<close>

text \<open>
  A pyembroidery stitch is a Python list \<open>[x, y, command]\<close>.  The readers of
  pyembroidery add up the integer displacements of the file, so the coordinates and
  the command are Python ints, which are unbounded.  \<open>int(...)\<close> truncates towards
  zero.  The command constants are pyembroidery's.
\<close>

type_synonym stitch = "int list"

definition STITCH :: int where "STITCH = 0"
definition JUMP :: int where "JUMP = 1"
definition TRIM :: int where "TRIM = 2"
definition STOP :: int where "STOP = 3"
definition COLOR_CHANGE :: int where "COLOR_CHANGE = 5"

definition py_int :: "rat \<Rightarrow> int" where
  "py_int q = (if 0 \<le> q then \<lfloor>q\<rfloor> else \<lceil>q\<rceil>)"

definition py_min :: "int list \<Rightarrow> int" where
  "py_min xs = fold min (tl xs) (hd xs)"

definition py_max :: "int list \<Rightarrow> int" where
  "py_max xs = fold max (tl xs) (hd xs)"

subsection \<open>Python floats\<close>

text \<open>
  A Python float is an IEEE 754 binary64 number; the finite ones are rationals.
  \<open>round_double q\<close> is the binary64 number nearest to \<open>q\<close>, ties to the even
  significand, with the exponent range unbounded above: \<open>exponent q\<close> is the power of
  two at or below \<open>q\<close>, \<open>ulp q\<close> the spacing of the binary64 numbers around \<open>q\<close>
  (53 significant bits, and the fixed spacing of the subnormal numbers below
  \<open>2 powi -1022\<close>).  A result of magnitude \<open>2 ^ 1024\<close> or more, that is with an
  exponent above 1023, is not a finite double:
  \<open>int / int\<close> and the conversion of an int to float raise OverflowError there, a
  product of floats becomes an infinity on which \<open>int(...)\<close> raises OverflowError.
  Both are the value None below.
\<close>

definition rne :: "rat \<Rightarrow> int" where
  "rne q =
     (let f = \<lfloor>q\<rfloor>; r = q - of_int f
      in if r < 1 / 2 then f else if 1 / 2 < r then f + 1 else if even f then f else f + 1)"

definition exponent :: "rat \<Rightarrow> int" where
  "exponent q =
     (if 1 \<le> q then bitlen \<lfloor>q\<rfloor> - 1
      else (let f = bitlen \<lfloor>1 / q\<rfloor> - 1
            in if q = 2 powi (- f) then - f else - f - 1))"

definition ulp :: "rat \<Rightarrow> rat" where
  "ulp q = 2 powi (max (exponent q) (- 1022) - 52)"

definition round_double :: "rat \<Rightarrow> rat" where
  "round_double q =
     (if q = 0 then 0
      else if 0 < q then of_int (rne (q / ulp q)) * ulp q
      else - (of_int (rne (- q / ulp (- q))) * ulp (- q)))"

definition is_finite :: "rat \<Rightarrow> bool" where
  "is_finite q = (q = 0 \<or> exponent \<bar>q\<bar> < 1024)"

definition finite_double :: "rat \<Rightarrow> rat option" where
  "finite_double q = (if is_finite q then Some q else None)"

text \<open>\<open>float(n)\<close> for an int, as the product of an int and a float performs it.\<close>

definition py_float :: "int \<Rightarrow> rat option" where
  "py_float n = finite_double (round_double (of_int n))"

text \<open>\<open>a / b\<close> for two ints: the correctly rounded quotient.\<close>

definition py_truediv :: "int \<Rightarrow> int \<Rightarrow> rat option" where
  "py_truediv a b = (if b = 0 then None else finite_double (round_double (of_int a / of_int b)))"

text \<open>\<open>int(n * scale)\<close> for an int \<open>n\<close> and a float \<open>scale\<close>.\<close>

definition int_of_product :: "int \<Rightarrow> rat \<Rightarrow> int option" where
  "int_of_product n sc =
     (case py_float n of
        None \<Rightarrow> None
      | Some f \<Rightarrow>
          (case finite_double (round_double (f * sc)) of
             None \<Rightarrow> None
           | Some p \<Rightarrow> Some (py_int p)))"

subsection \<open>The converter\<close>

definition padding :: int where
  "padding = 50"

definition colors :: "string list" where
  "colors = [''black'', ''red'', ''blue'', ''green'', ''purple'', ''orange'']"

text \<open>
  A drawn line segment.  \<open>src\<close> and \<open>dst\<close> are the positions in the stitch list of
  the command that set the anchor and of the command that drew; they are kept for
  reference only and no result of the rasterizer depends on them.
\<close>

record line =
  src :: nat
  dst :: nat
  p0 :: "int \<times> int"
  p1 :: "int \<times> int"
  fill :: string

record pen =
  prev_point :: "(nat \<times> int \<times> int) option"
  stitch_color :: string
  drawn :: "line list"

record image =
  img_width :: int
  img_height :: int
  lines :: "line list"

text \<open>
  What Pillow does with a canvas of a given size: whether \<open>Image.new\<close> creates it, and
  whether the output directory can be made and \<open>img.save\<close> writes the JPEG.
\<close>

record pillow =
  new_image :: "int \<times> int \<Rightarrow> bool"
  save_jpeg :: "int \<times> int \<Rightarrow> bool"

definition x_coords :: "stitch list \<Rightarrow> int list" where
  "x_coords stitches = map (\<lambda>s. s ! 0) (filter (\<lambda>s. 2 \<le> length s) stitches)"

definition y_coords :: "stitch list \<Rightarrow> int list" where
  "y_coords stitches = map (\<lambda>s. s ! 1) (filter (\<lambda>s. 2 \<le> length s) stitches)"

definition pattern_width :: "stitch list \<Rightarrow> int" where
  "pattern_width stitches = py_max (x_coords stitches) - py_min (x_coords stitches)"

definition pattern_height :: "stitch list \<Rightarrow> int" where
  "pattern_height stitches = py_max (y_coords stitches) - py_min (y_coords stitches)"

definition scale :: "int \<times> int \<Rightarrow> stitch list \<Rightarrow> rat option" where
  "scale image_size stitches =
     (if 0 < pattern_width stitches \<and> 0 < pattern_height stitches then
        (case py_truediv (fst image_size - 2 * padding) (pattern_width stitches) of
           None \<Rightarrow> None
         | Some scale_x \<Rightarrow>
             (case py_truediv (snd image_size - 2 * padding) (pattern_height stitches) of
                None \<Rightarrow> None
              | Some scale_y \<Rightarrow> Some (min scale_x (min scale_y 1))))
      else Some 1)"

text \<open>The pair \<open>(img_width, img_height)\<close>, for the scale \<open>sc\<close> just computed.\<close>

definition canvas_size :: "stitch list \<Rightarrow> rat \<Rightarrow> (int \<times> int) option" where
  "canvas_size stitches sc =
     (case int_of_product (pattern_width stitches) sc of
        None \<Rightarrow> None
      | Some w \<Rightarrow>
          (case int_of_product (pattern_height stitches) sc of
             None \<Rightarrow> None
           | Some h \<Rightarrow> Some (w + 2 * padding, h + 2 * padding)))"

text \<open>The pair \<open>(adjusted_x, adjusted_y)\<close> of a stitch with coordinates.\<close>

definition adjusted :: "stitch list \<Rightarrow> rat \<Rightarrow> stitch \<Rightarrow> (int \<times> int) option" where
  "adjusted stitches sc s =
     (case int_of_product (s ! 0 - py_min (x_coords stitches)) sc of
        None \<Rightarrow> None
      | Some ax \<Rightarrow>
          (case int_of_product (s ! 1 - py_min (y_coords stitches)) sc of
             None \<Rightarrow> None
           | Some ay \<Rightarrow> Some (ax + padding, ay + padding)))"

text \<open>
  The body of the drawing loop, for the stitch \<open>s\<close> that \<open>enumerate\<close> delivers with the
  index \<open>i\<close>; None is an exception.
\<close>

definition draw_step :: "stitch list \<Rightarrow> rat \<Rightarrow> nat \<Rightarrow> stitch \<Rightarrow> pen \<Rightarrow> pen option" where
  "draw_step stitches sc i s pn =
     (if length s < 2 then Some pn
      else
        let command = (if 2 < length s then s ! 2 else STITCH)
        in case adjusted stitches sc s of
             None \<Rightarrow> None
           | Some current_point \<Rightarrow>
               if command = COLOR_CHANGE then
                 Some (pn\<lparr>stitch_color := colors ! ((i div 100) mod length colors),
                          prev_point := Some (i, current_point)\<rparr>)
               else if command = JUMP then Some (pn\<lparr>prev_point := Some (i, current_point)\<rparr>)
               else if command = TRIM \<or> command = STOP then Some (pn\<lparr>prev_point := None\<rparr>)
               else
                 (case prev_point pn of
                    Some (j, pt) \<Rightarrow>
                      if command = STITCH then
                        Some (pn\<lparr>drawn := drawn pn @
                                   [\<lparr>src = j, dst = i, p0 = pt, p1 = current_point,
                                     fill = stitch_color pn\<rparr>],
                                 prev_point := Some (i, current_point)\<rparr>)
                      else Some (pn\<lparr>prev_point := Some (i, current_point)\<rparr>)
                  | None \<Rightarrow> Some (pn\<lparr>prev_point := Some (i, current_point)\<rparr>)))"

fun draw_loop :: "stitch list \<Rightarrow> rat \<Rightarrow> nat \<Rightarrow> stitch list \<Rightarrow> pen \<Rightarrow> pen option" where
  "draw_loop stitches sc i [] pn = Some pn"
| "draw_loop stitches sc i (s # rest) pn =
     (case draw_step stitches sc i s pn of
        None \<Rightarrow> None
      | Some pn' \<Rightarrow> draw_loop stitches sc (Suc i) rest pn')"

definition initial_pen :: pen where
  "initial_pen = \<lparr>prev_point = None, stitch_color = ''black'', drawn = []\<rparr>"

text \<open>
  The statements of \<open>convert_pes_to_jpg\<close> between the two early returns and the
  \<open>return True\<close>; None is an exception raised by one of them.
\<close>

definition render :: "pillow \<Rightarrow> int \<times> int \<Rightarrow> stitch list \<Rightarrow> image option" where
  "render lib image_size stitches =
     (case scale image_size stitches of
        None \<Rightarrow> None
      | Some sc \<Rightarrow>
          (case canvas_size stitches sc of
             None \<Rightarrow> None
           | Some (w, h) \<Rightarrow>
               if \<not> new_image lib (w, h) then None
               else
                 (case draw_loop stitches sc 0 stitches initial_pen of
                    None \<Rightarrow> None
                  | Some pn \<Rightarrow>
                      if \<not> save_jpeg lib (w, h) then None
                      else Some \<lparr>img_width = w, img_height = h, lines = drawn pn\<rparr>)))"

text \<open>
  \<open>PyEmbroideryConverter.convert_pes_to_jpg\<close>, from the stitch list that
  \<open>pyembroidery.read\<close> delivered: \<open>Inr None\<close> is the return value False, \<open>Inr (Some img)\<close>
  is True with the image that was saved, \<open>Inl\<close> is the ConversionError into which the
  \<open>except\<close> clause turns every exception; the text of the exception, which the
  message of the ConversionError quotes, is left out.
\<close>

definition convert_pes_to_jpg ::
  "pillow \<Rightarrow> int \<times> int \<Rightarrow> stitch list \<Rightarrow> error + image option" where
  "convert_pes_to_jpg lib image_size stitches =
     (if stitches = [] then Inr None
      else if x_coords stitches = [] \<or> y_coords stitches = [] then Inr None
      else
        case render lib image_size stitches of
          None \<Rightarrow> Inl (ConversionError ''Conversion error'')
        | Some img \<Rightarrow> Inr (Some img))"

section \<open>Classification client\<close>

definition str_error :: "error \<Rightarrow> string" where
  "str_error e =
     (case e of ValueError m \<Rightarrow> m | RuntimeError m \<Rightarrow> m | ConversionError m \<Rightarrow> m
      | BackendError m \<Rightarrow> m)"

text \<open>
  The body of the \<open>try\<close> of one attempt: the request to the backend either raises or
  delivers the content of the reply, which is stripped, lowercased and normalised.
  \<open>Inl\<close> is an exception, which the \<open>except\<close> clause of the attempt catches.
\<close>

definition attempt_body :: "(error + string) \<Rightarrow> error + Category" where
  "attempt_body response =
     (case response of
        Inl e \<Rightarrow> Inl e
      | Inr content \<Rightarrow>
          (case from_ai_response (py_lower (py_strip content)) 1 of
             Inl e \<Rightarrow> Inl e
           | Inr category \<Rightarrow>
               if is_valid category then Inr category else Category_init ''other'' 1))"

text \<open>
  The retry loop \<open>for attempt in range(self.max_retries)\<close>; \<open>response attempt\<close> is what
  the backend does at that attempt.  The waiting between attempts has no effect on
  the result and is left out.  Falling out of the loop returns None.
\<close>

fun retry_loop :: "(nat \<Rightarrow> error + string) \<Rightarrow> int \<Rightarrow> nat list \<Rightarrow> error + Category option" where
  "retry_loop response max_retries [] = Inr None"
| "retry_loop response max_retries (attempt # rest) =
     (case attempt_body (response attempt) of
        Inr category \<Rightarrow> Inr (Some category)
      | Inl e \<Rightarrow>
          if int attempt < max_retries - 1 then retry_loop response max_retries rest
          else map_sum id Some (Category_init ''other'' 1))"

definition py_range :: "int \<Rightarrow> nat list" where
  "py_range n = [0..<nat n]"

text \<open>\<open>OpenAICategorizationStrategy.categorize_image\<close>.\<close>

definition strategy_categorize_image ::
  "bool \<Rightarrow> bool \<Rightarrow> (nat \<Rightarrow> error + string) \<Rightarrow> int \<Rightarrow> error + Category option" where
  "strategy_categorize_image image_exists image_readable response max_retries =
     (if \<not> image_exists then Inr None
      else if \<not> image_readable then map_sum id Some (Category_init ''other'' 1)
      else retry_loop response max_retries (py_range max_retries))"

text \<open>\<open>CategorizationContext.categorize_image\<close>: the availability probe comes first.\<close>

definition context_categorize_image ::
  "bool \<Rightarrow> bool \<Rightarrow> bool \<Rightarrow> (nat \<Rightarrow> error + string) \<Rightarrow> int \<Rightarrow> error + Category option" where
  "context_categorize_image available image_exists image_readable response max_retries =
     (if \<not> available then Inl (RuntimeError ''Categorization strategy is not available'')
      else strategy_categorize_image image_exists image_readable response max_retries)"

section \<open>File orchestrator\<close>

record EmbroideryFile =
  original_path :: string
  file_name :: string
  category :: "Category option"
  jpg_path :: "string option"

text \<open>
  What the collaborators do during one batch.  The converter, the classification
  backend and the filesystem adapter are reached through interfaces; what they answer
  for the file with the 1-based ordinal \<open>i\<close> is a parameter of the model.
\<close>

record world =
  tempdir :: string
  max_retries :: int
  available_at_start :: bool
  find_pes_files :: "error + EmbroideryFile list"
  convert_result :: "nat \<Rightarrow> error + bool"
  probe :: "nat \<Rightarrow> bool"
  image_readable :: "nat \<Rightarrow> bool"
  response :: "nat \<Rightarrow> nat \<Rightarrow> error + string"
  copy_result :: "nat \<Rightarrow> string \<Rightarrow> error + bool"
  unlink_ok :: "string \<Rightarrow> bool"

datatype event =
    ConvertCall nat string
  | CategorizeCall nat string
  | CopyCall nat string string
  | CleanupCall "string list"

text \<open>
  The state the service works on: its list of temporary images, the preview files
  present on disk, and the calls made to the collaborators so far.
\<close>

record service_state =
  temp_images :: "string list"
  disk :: "string set"
  calls :: "event list"

record results =
  total_files :: nat
  processed_files :: nat
  failed_files :: nat
  categories_found :: "string set"
  errors :: "string list"
  skipped_files :: "int option"

text \<open>
  \<open>Path(name).stem\<close> on a POSIX system.  \<open>py_split\<close> is \<open>str.split(sep)\<close>; pathlib
  drops the empty components and the components \<open>.\<close>, the name is the last component
  that is left (empty when there is none), and the stem is the name without its last
  suffix, where a dot at the start or at the end of the name starts no suffix.
\<close>

fun py_split :: "char \<Rightarrow> string \<Rightarrow> string list" where
  "py_split sep [] = [[]]"
| "py_split sep (c # cs) =
     (if c = sep then [] # py_split sep cs
      else (case py_split sep cs of [] \<Rightarrow> [[c]] | p # ps \<Rightarrow> (c # p) # ps))"

definition path_name :: "string \<Rightarrow> string" where
  "path_name p =
     (let parts = filter (\<lambda>x. x \<noteq> [] \<and> x \<noteq> ''.'') (py_split (CHR ''/'') p)
      in if parts = [] then [] else last parts)"

definition path_stem :: "string \<Rightarrow> string" where
  "path_stem p =
     (let nm = path_name p;
          suffix = takeWhile (\<lambda>c. c \<noteq> CHR ''.'') (rev nm)
      in if CHR ''.'' \<in> set nm \<and> suffix \<noteq> [] \<and> length suffix + 1 < length nm
         then take (length nm - length suffix - 1) nm else nm)"

definition create_temp_jpg_path :: "world \<Rightarrow> string \<Rightarrow> string" where
  "create_temp_jpg_path w pes_file_name =
     tempdir w @ ''/embroidery_categorizer/'' @ path_stem pes_file_name @ ''.jpg''"

text \<open>
  The body of the \<open>try\<close> in \<open>_process_single_file\<close>.  A converter that returns True
  has written the preview to \<open>temp_jpg_path\<close>.  The result is the returned boolean
  or the exception raised, the file entity with the fields set so far, and the state.
\<close>

definition process_body ::
  "world \<Rightarrow> EmbroideryFile \<Rightarrow> nat \<Rightarrow> service_state
     \<Rightarrow> (error + bool) \<times> EmbroideryFile \<times> service_state" where
  "process_body w file file_number st =
     (let temp_jpg_path = create_temp_jpg_path w (file_name file);
          st1 = st\<lparr>temp_images := temp_images st @ [temp_jpg_path],
                   calls := calls st @ [ConvertCall file_number (file_name file)]\<rparr>
      in case convert_result w file_number of
           Inl e \<Rightarrow> (Inl e, file, st1)
         | Inr False \<Rightarrow> (Inr False, file, st1)
         | Inr True \<Rightarrow>
             (let st2 = st1\<lparr>disk := insert temp_jpg_path (disk st1),
                            calls := calls st1 @ [CategorizeCall file_number (file_name file)]\<rparr>;
                  file1 = file\<lparr>jpg_path := Some temp_jpg_path\<rparr>
              in case context_categorize_image (probe w file_number)
                        (temp_jpg_path \<in> disk st2) (image_readable w file_number)
                        (response w file_number) (max_retries w) of
                   Inl e \<Rightarrow> (Inl e, file1, st2)
                 | Inr found \<Rightarrow>
                     (case (case found of Some c \<Rightarrow> Inr c | None \<Rightarrow> Category_init ''other'' 1) of
                        Inl e \<Rightarrow> (Inl e, file1, st2)
                      | Inr cat \<Rightarrow>
                          (let file2 = file1\<lparr>category := Some cat\<rparr>;
                               st3 = st2\<lparr>calls := calls st2 @
                                        [CopyCall file_number (file_name file) (name cat)]\<rparr>
                           in case copy_result w file_number (name cat) of
                                Inl e \<Rightarrow> (Inl e, file2, st3)
                              | Inr copy_success \<Rightarrow> (Inr copy_success, file2, st3)))))"

text \<open>\<open>_process_single_file\<close>: every exception of the body is caught and gives False.\<close>

definition process_single_file ::
  "world \<Rightarrow> EmbroideryFile \<Rightarrow> nat \<Rightarrow> service_state
     \<Rightarrow> (error + bool) \<times> EmbroideryFile \<times> service_state" where
  "process_single_file w file file_number st =
     (case process_body w file file_number st of
        (Inl e, file', st') \<Rightarrow> (Inr False, file', st')
      | (Inr b, file', st') \<Rightarrow> (Inr b, file', st'))"

text \<open>
  \<open>_cleanup_temp_images\<close> with \<open>cleanup_temporary_images\<close> of the converter: each
  listed image is unlinked; where the unlink raises, the image stays and the loop goes on.
\<close>

definition cleanup_temp_images :: "world \<Rightarrow> service_state \<Rightarrow> service_state" where
  "cleanup_temp_images w st =
     (if temp_images st \<noteq> [] then
        st\<lparr>disk := disk st - set (filter (unlink_ok w) (temp_images st)),
           temp_images := [],
           calls := calls st @ [CleanupCall (temp_images st)]\<rparr>
      else st)"

text \<open>One iteration of \<open>for index, file in enumerate(embroidery_files, 1)\<close>.\<close>

definition loop_step ::
  "world \<Rightarrow> int option \<Rightarrow> results \<times> service_state \<Rightarrow> nat \<times> EmbroideryFile
     \<Rightarrow> results \<times> service_state" where
  "loop_step w start_after acc item =
     (let res = fst acc; st = snd acc; index = fst item; file = snd item
      in if (case start_after of None \<Rightarrow> False | Some n \<Rightarrow> int index \<le> n) then (res, st)
         else
           (case process_single_file w file index st of
              (Inr success, file', st') \<Rightarrow>
                if success then
                  (res\<lparr>processed_files := processed_files res + 1,
                       categories_found :=
                         (case category file' of
                            Some c \<Rightarrow> insert (name c) (categories_found res)
                          | None \<Rightarrow> categories_found res)\<rparr>, st')
                else (res\<lparr>failed_files := failed_files res + 1\<rparr>, st')
            | (Inl e, file', st') \<Rightarrow>
                (res\<lparr>failed_files := failed_files res + 1,
                     errors := errors res @ [file_name file @ '': '' @ str_error e]\<rparr>, st')))"

definition enumerate1 :: "'a list \<Rightarrow> (nat \<times> 'a) list" where
  "enumerate1 xs = zip [1..<Suc (length xs)] xs"

definition batch_loop ::
  "world \<Rightarrow> int option \<Rightarrow> (nat \<times> EmbroideryFile) list \<Rightarrow> results \<times> service_state
     \<Rightarrow> results \<times> service_state" where
  "batch_loop w start_after items acc = foldl (loop_step w start_after) acc items"

definition initial_results :: results where
  "initial_results =
     \<lparr>total_files = 0, processed_files = 0, failed_files = 0, categories_found = {},
      errors = [], skipped_files = None\<rparr>"

text \<open>\<open>CategorizationService.categorize_files_in_directory\<close>.\<close>

definition categorize_files_in_directory ::
  "world \<Rightarrow> int option \<Rightarrow> service_state \<Rightarrow> results \<times> service_state" where
  "categorize_files_in_directory w start_after st =
     (if \<not> available_at_start w then
        (initial_results\<lparr>errors := [''Categorization service is not available'']\<rparr>,
         cleanup_temp_images w st)
      else
        (case find_pes_files w of
           Inl e \<Rightarrow> (initial_results\<lparr>errors := [str_error e]\<rparr>, cleanup_temp_images w st)
         | Inr embroidery_files \<Rightarrow>
             (let res1 = initial_results\<lparr>total_files := length embroidery_files\<rparr>
              in if embroidery_files = [] then (res1, st)
                 else
                   (let res2 = res1\<lparr>skipped_files :=
                                      (case start_after of Some n \<Rightarrow> Some n | None \<Rightarrow> Some 0)\<rparr>;
                        finished = batch_loop w start_after (enumerate1 embroidery_files) (res2, st)
                    in (fst finished, cleanup_temp_images w (snd finished))))))"

section \<open>Use case\<close>

record outcome =
  success :: bool
  error_key :: "string option"
  batch :: results

definition failure :: "string \<Rightarrow> outcome" where
  "failure error_msg =
     \<lparr>success = False, error_key = Some error_msg,
      batch = initial_results\<lparr>errors := [error_msg]\<rparr>\<rparr>"

text \<open>
  \<open>CategorizeFilesUseCase.execute\<close>.  Whether the input path exists and is a
  directory are facts of the filesystem; \<open>mkdir_error\<close> is the text of the exception
  that creating the output directory raises, if it raises.
\<close>

definition execute ::
  "bool \<Rightarrow> bool \<Rightarrow> string option \<Rightarrow> string \<Rightarrow> world \<Rightarrow> int option \<Rightarrow> service_state
     \<Rightarrow> outcome" where
  "execute input_exists input_is_directory mkdir_error input_directory w start_after st =
     (if \<not> input_exists then
        failure (''Input directory does not exist: '' @ input_directory)
      else if \<not> input_is_directory then
        failure (''Input path is not a directory: '' @ input_directory)
      else
        (case mkdir_error of
           Some e \<Rightarrow> failure (''Error creating output directory: '' @ e)
         | None \<Rightarrow>
             (let res = fst (categorize_files_in_directory w start_after st)
              in \<lparr>success = failed_files res < total_files res, error_key = None,
                  batch = res\<rparr>)))"

section \<open>Example environment and bookkeeping\<close>

text \<open>
  An environment in which every collaborator succeeds and the classifier answers
  "flowers"; the examples below change single fields of it.  \<open>call_ordinal\<close> reads the
  file ordinal off a recorded call, \<open>skipped\<close> is the condition under which the loop
  skips a file, \<open>preview_of\<close> the preview path of a list item.
\<close>

definition design :: "string \<Rightarrow> EmbroideryFile" where
  "design nm = \<lparr>original_path = ''designs/'' @ nm @ ''.pes'', file_name = nm,
                 category = None, jpg_path = None\<rparr>"

definition calm_world :: "EmbroideryFile list \<Rightarrow> world" where
  "calm_world files =
     \<lparr>tempdir = ''/tmp'', max_retries = 3, available_at_start = True,
      find_pes_files = Inr files, convert_result = (\<lambda>i. Inr True), probe = (\<lambda>i. True),
      image_readable = (\<lambda>i. True), response = (\<lambda>i attempt. Inr ''flowers''),
      copy_result = (\<lambda>i c. Inr True), unlink_ok = (\<lambda>p. True)\<rparr>"

definition idle :: service_state where
  "idle = \<lparr>temp_images = [], disk = {}, calls = []\<rparr>"

text \<open>
  A Pillow that creates every canvas of non-negative size and writes every JPEG
  whose sides lie between 1 and 65500 pixels.
\<close>

definition plain_pillow :: pillow where
  "plain_pillow =
     \<lparr>new_image = (\<lambda>size. 0 \<le> fst size \<and> 0 \<le> snd size),
      save_jpeg = (\<lambda>size. 0 < fst size \<and> fst size \<le> 65500 \<and> 0 < snd size \<and> snd size \<le> 65500)\<rparr>"

definition call_ordinal :: "event \<Rightarrow> nat option" where
  "call_ordinal e =
     (case e of ConvertCall i n \<Rightarrow> Some i | CategorizeCall i n \<Rightarrow> Some i
      | CopyCall i n c \<Rightarrow> Some i | CleanupCall ps \<Rightarrow> None)"

definition skipped :: "int option \<Rightarrow> nat \<Rightarrow> bool" where
  "skipped start_after index = (case start_after of None \<Rightarrow> False | Some n \<Rightarrow> int index \<le> n)"

definition preview_of :: "world \<Rightarrow> nat \<times> EmbroideryFile \<Rightarrow> string" where
  "preview_of w item = create_temp_jpg_path w (file_name (snd item))"

section \<open>Invariant of the drawing loop\<close>

text \<open>
  A command breaks the path when it is a trim or a stop.  An anchor set by the command
  at position \<open>j\<close> is still in force before position \<open>i\<close> when that command carries
  coordinates, does not break the path, and every command between the two is skipped
  by the loop for want of coordinates.  A colour \<open>c\<close> is in force before position \<open>i\<close>
  when it is the palette entry of the last colour change before \<open>i\<close>, or black when
  there is none.
\<close>

definition is_break :: "stitch \<Rightarrow> bool" where
  "is_break s = (2 < length s \<and> (s ! 2 = TRIM \<or> s ! 2 = STOP))"

definition is_color_change :: "stitch \<Rightarrow> bool" where
  "is_color_change s = (2 < length s \<and> s ! 2 = COLOR_CHANGE)"

definition is_stitch :: "stitch \<Rightarrow> bool" where
  "is_stitch s = (length s = 2 \<or> (2 < length s \<and> s ! 2 = STITCH))"

definition anchor_ok :: "stitch list \<Rightarrow> nat \<Rightarrow> nat \<Rightarrow> bool" where
  "anchor_ok all j i =
     (j < i \<and> 2 \<le> length (all ! j) \<and> \<not> is_break (all ! j)
      \<and> (\<forall>k. j < k \<and> k < i \<longrightarrow> length (all ! k) < 2))"

definition color_ok :: "stitch list \<Rightarrow> nat \<Rightarrow> string \<Rightarrow> bool" where
  "color_ok all i c =
     ((\<exists>k < i. is_color_change (all ! k)
          \<and> (\<forall>m. k < m \<and> m < i \<longrightarrow> \<not> is_color_change (all ! m))
          \<and> c = colors ! ((k div 100) mod 6))
      \<or> ((\<forall>m < i. \<not> is_color_change (all ! m)) \<and> c = ''black''))"

definition pen_inv :: "stitch list \<Rightarrow> rat \<Rightarrow> nat \<Rightarrow> pen \<Rightarrow> bool" where
  "pen_inv all sc i pn =
     ((\<forall>l \<in> set (drawn pn). dst l < i \<and> anchor_ok all (src l) (dst l)
          \<and> is_stitch (all ! dst l)
          \<and> adjusted all sc (all ! src l) = Some (p0 l)
          \<and> adjusted all sc (all ! dst l) = Some (p1 l)
          \<and> color_ok all (dst l) (fill l))
      \<and> (\<forall>j pt. prev_point pn = Some (j, pt) \<longrightarrow>
            anchor_ok all j i \<and> adjusted all sc (all ! j) = Some pt)
      \<and> color_ok all i (stitch_color pn))"

section \<open>Facts about the string functions\<close>

lemma of_char_lower_range:
  "py_isupper c \<Longrightarrow>
     (97 \<le> (of_char (py_lower_char c) :: nat) \<and> (of_char (py_lower_char c) :: nat) \<le> 122)
   \<or> (224 \<le> (of_char (py_lower_char c) :: nat) \<and> (of_char (py_lower_char c) :: nat) \<le> 254)"
  by (auto simp: py_isupper_def py_lower_char_def Let_def)

lemma py_isupper_lower_char: "\<not> py_isupper (py_lower_char c)"
proof (cases "py_isupper c")
  case True
  from of_char_lower_range [OF True] show ?thesis
    by (auto simp: py_isupper_def Let_def)
next
  case False
  then show ?thesis by (simp add: py_lower_char_def)
qed

lemma py_lower_char_idem: "py_lower_char (py_lower_char c) = py_lower_char c"
  using py_isupper_lower_char [of c] by (simp add: py_lower_char_def [of "py_lower_char c"])

lemma py_lower_idem: "py_lower (py_lower s) = py_lower s"
  by (simp add: py_lower_def py_lower_char_idem)

lemma py_isspace_lower_char: "py_isspace (py_lower_char c) = py_isspace c"
proof (cases "py_isupper c")
  case True
  have a: "\<not> py_isspace c" using True
    by (auto simp: py_isupper_def py_isspace_def py_whitespace_def Let_def)
  have b: "\<not> py_isspace (py_lower_char c)" using of_char_lower_range [OF True]
    by (auto simp: py_isspace_def py_whitespace_def)
  show ?thesis using a b by simp
next
  case False then show ?thesis by (simp add: py_lower_char_def)
qed

lemma lower_char_avoids:
  assumes "\<forall>x \<in> set cs. (of_char x :: nat) < 97 \<or> (of_char x :: nat) = 123 \<or> (of_char x :: nat) = 125"
    and "c \<notin> set cs"
  shows "py_lower_char c \<notin> set cs"
proof (cases "py_isupper c")
  case True
  from of_char_lower_range [OF True] assms(1) show ?thesis by fastforce
next
  case False then show ?thesis using assms(2) by (simp add: py_lower_char_def)
qed

lemma punctuation_codes:
  "\<forall>x \<in> set (CHR '' '' # CHR ''_'' # punctuation).
     (of_char x :: nat) < 97 \<or> (of_char x :: nat) = 123 \<or> (of_char x :: nat) = 125"
  by (simp add: punctuation_def)

lemma space_is_space: "py_isspace (CHR '' '')"
  by (simp add: py_isspace_def py_whitespace_def)

lemma underscore_not_space: "\<not> py_isspace (CHR ''_'')"
  by (simp add: py_isspace_def py_whitespace_def)

lemma last_dropWhile: "dropWhile P xs \<noteq> [] \<Longrightarrow> last (dropWhile P xs) = last xs"
  by (metis last_appendR takeWhile_dropWhile_id)

lemma py_strip_ends:
  assumes "py_strip s \<noteq> []"
  shows "\<not> py_isspace (hd (py_strip s))" and "\<not> py_isspace (last (py_strip s))"
proof -
  let ?t = "dropWhile py_isspace s"
  let ?u = "dropWhile py_isspace (rev ?t)"
  have u: "?u \<noteq> []" using assms by (simp add: py_strip_def)
  have t: "?t \<noteq> []"
  proof
    assume e: "?t = []"
    have "?u = []" unfolding e by simp
    with u show False by simp
  qed
  have "last (py_strip s) = hd ?u" using u by (simp add: py_strip_def last_rev)
  then show "\<not> py_isspace (last (py_strip s))" using hd_dropWhile [OF u] by simp
  have "hd (py_strip s) = last ?u" using u by (simp add: py_strip_def hd_rev)
  also have "\<dots> = last (rev ?t)" using u by (rule last_dropWhile)
  also have "\<dots> = hd ?t" using t by (simp add: last_rev)
  finally show "\<not> py_isspace (hd (py_strip s))" using hd_dropWhile [OF t] by simp
qed

lemma py_strip_fixed:
  assumes "s \<noteq> []" "\<not> py_isspace (hd s)" "\<not> py_isspace (last s)"
  shows "py_strip s = s"
proof -
  have a: "dropWhile py_isspace s = s" using assms(2) by (simp add: dropWhile_eq_self_iff)
  have "hd (rev s) = last s" using assms(1) by (simp add: hd_rev)
  then have b: "dropWhile py_isspace (rev s) = rev s"
    using assms(3) by (simp add: dropWhile_eq_self_iff)
  show ?thesis by (simp add: py_strip_def a b)
qed

lemma set_py_strip: "set (py_strip s) \<subseteq> set s"
proof -
  have "set (py_strip s) = set (dropWhile py_isspace (rev (dropWhile py_isspace s)))"
    by (simp add: py_strip_def)
  also have "\<dots> \<subseteq> set (rev (dropWhile py_isspace s))" by (auto dest: set_dropWhileD)
  also have "\<dots> \<subseteq> set s" by (auto dest: set_dropWhileD)
  finally show ?thesis .
qed

lemma remove_punctuation:
  "foldl py_remove_char s cs = filter (\<lambda>c. c \<notin> set cs) s"
proof (induction cs arbitrary: s)
  case Nil then show ?case by simp
next
  case (Cons a cs)
  have "foldl py_remove_char s (a # cs) = foldl py_remove_char (py_remove_char s a) cs"
    by simp
  also have "\<dots> = filter (\<lambda>c. c \<notin> set cs) (filter (\<lambda>c. c \<noteq> a) s)"
    by (simp only: Cons.IH py_remove_char_def)
  also have "\<dots> = filter (\<lambda>c. c \<notin> set (a # cs)) s"
    by (simp add: conj_commute)
  finally show ?case .
qed


lemma normal_name_facts:
  assumes "py_strip nm \<noteq> []"
  defines "n \<equiv> py_replace_char (CHR '' '') (CHR ''_'') (py_lower (py_strip nm))"
  shows "n \<noteq> []" and "py_strip n = n" and "py_lower n = n" and "CHR '' '' \<notin> set n"
    and "py_replace_char (CHR '' '') (CHR ''_'') n = n"
    and "set nm \<inter> set punctuation = {} \<Longrightarrow> set n \<inter> set punctuation = {}"
proof -
  let ?t = "py_strip nm"
  let ?f = "\<lambda>c. if py_lower_char c = CHR '' '' then CHR ''_'' else py_lower_char c"
  have n: "n = map ?f ?t" by (simp add: n_def py_replace_char_def py_lower_def)
  show ne: "n \<noteq> []" using assms(1) by (simp add: n)
  have nsp: "\<not> py_isspace c \<Longrightarrow> \<not> py_isspace (?f c)" for c
    by (simp add: py_isspace_lower_char underscore_not_space)
  have "hd n = ?f (hd ?t)" "last n = ?f (last ?t)"
    using assms(1) by (simp_all add: n hd_map last_map)
  then have "\<not> py_isspace (hd n)" "\<not> py_isspace (last n)"
    using py_strip_ends [OF assms(1)] nsp by simp_all
  with ne show "py_strip n = n" by (rule py_strip_fixed)
  have low: "py_lower_char (?f c) = ?f c" for c
    by (simp add: py_lower_char_idem) (simp add: py_lower_char_def py_isupper_def)
  show "py_lower n = n" by (simp add: n py_lower_def low)
  show nosp: "CHR '' '' \<notin> set n" by (auto simp: n)
  then show "py_replace_char (CHR '' '') (CHR ''_'') n = n"
    unfolding py_replace_char_def by (intro map_idI) auto
  show "set n \<inter> set punctuation = {}" if d: "set nm \<inter> set punctuation = {}"
  proof -
    have "?f c \<notin> set punctuation" if "c \<in> set ?t" for c
    proof -
      have "c \<notin> set punctuation" using that set_py_strip [of nm] d by auto
      moreover have "\<forall>x \<in> set punctuation.
          (of_char x :: nat) < 97 \<or> (of_char x :: nat) = 123 \<or> (of_char x :: nat) = 125"
        using punctuation_codes by simp
      ultimately have "py_lower_char c \<notin> set punctuation"
        by (rule lower_char_avoids [rotated])
      moreover have "CHR ''_'' \<notin> set punctuation" by (simp add: punctuation_def)
      ultimately show ?thesis by simp
    qed
    then have "\<forall>c \<in> set ?t. ?f c \<notin> set punctuation" by (intro ballI)
    then have "\<forall>x \<in> set n. x \<notin> set punctuation"
      unfolding n by (simp only: set_map ball_simps)
    then show ?thesis by (simp only: disjoint_iff Ball_def)
  qed
qed


lemma Category_init_Inr:
  assumes "Category_init nm conf = Inr c"
  shows "py_strip nm \<noteq> []" and "0 \<le> conf" and "conf \<le> 1"
    and "c = Category (py_replace_char (CHR '' '') (CHR ''_'') (py_lower (py_strip nm))) conf"
  using assms by (auto simp: Category_init_def split: if_splits)

lemma Category_init_normal:
  assumes "nm \<noteq> []" "py_strip nm = nm" "py_lower nm = nm"
    "py_replace_char (CHR '' '') (CHR ''_'') nm = nm" "0 \<le> conf" "conf \<le> 1"
  shows "Category_init nm conf = Inr (Category nm conf)"
  using assms by (simp add: Category_init_def)

lemma Category_init_again:
  assumes "Category_init nm conf = Inr c" "0 \<le> conf'" "conf' \<le> 1"
  shows "Category_init (name c) conf' = Inr (Category (name c) conf')"
proof -
  note i = Category_init_Inr [OF assms(1)]
  note f = normal_name_facts [OF i(1)]
  show ?thesis unfolding i(4) Category.sel
    by (rule Category_init_normal) (simp_all add: f assms)
qed




section \<open>Claims about the Category value object\<close>



text \<open>
  C9.  Normalisation of a classifier reply is idempotent: when it succeeds on a raw
  text and yields a Category, normalising that Category's name again succeeds and
  yields the same Category.
\<close>

theorem normalization_idempotent:
  assumes "from_ai_response raw conf = Inr c"
  shows "from_ai_response (name c) conf = Inr c"
proof -
  let ?clean = "foldl py_remove_char (py_lower (py_strip raw)) punctuation"
  have init: "Category_init ?clean conf = Inr c" using assms by (simp add: from_ai_response_def)
  note i = Category_init_Inr [OF init]
  note f = normal_name_facts [OF i(1)]
  have "set ?clean \<inter> set punctuation = {}" by (auto simp: remove_punctuation)
  then have np: "set (name c) \<inter> set punctuation = {}" unfolding i(4) Category.sel by (rule f(6))
  have s: "py_strip (name c) = name c" "py_lower (name c) = name c"
    unfolding i(4) Category.sel by (rule f(2), rule f(3))
  have "foldl py_remove_char (py_lower (py_strip (name c))) punctuation
        = filter (\<lambda>ch. ch \<notin> set punctuation) (name c)"
    by (simp only: s remove_punctuation)
  also have "\<dots> = name c" using np by (intro filter_True) auto
  finally have "from_ai_response (name c) conf = Category_init (name c) conf"
    by (simp add: from_ai_response_def)
  also have "\<dots> = Inr (Category (name c) conf)"
    using init i(2,3) by (rule Category_init_again)
  also have "Category (name c) conf = c" by (simp add: i(4))
  finally show ?thesis .
qed

theorem normalization_idempotent_witness:
  "from_ai_response '' Teddy Bears! '' 1 = Inr (Category ''teddy_bears'' 1)
   \<and> from_ai_response ''teddy_bears'' 1 = Inr (Category ''teddy_bears'' 1)"
proof -
  have h: "from_ai_response '' Teddy Bears! '' 1 = Inr (Category ''teddy_bears'' 1)"
    by code_simp
  from normalization_idempotent [OF h] h show ?thesis by simp
qed

section \<open>Facts about the rounding of floats\<close>

lemma rne_bounds: "of_int (rne q) \<le> q + 1 / 2" "q - 1 / 2 \<le> of_int (rne q)"
  "\<lfloor>q\<rfloor> \<le> rne q" "rne q \<le> \<lfloor>q\<rfloor> + 1"
  by (auto simp: rne_def Let_def) linarith+

lemma rne_of_int: "rne (of_int n) = n"
  by (simp add: rne_def)

lemma rne_mono:
  assumes "a \<le> b" shows "rne a \<le> rne b"
proof (cases "\<lfloor>a\<rfloor> = \<lfloor>b\<rfloor>")
  case True
  have "a - of_int \<lfloor>b\<rfloor> \<le> b - of_int \<lfloor>b\<rfloor>" using assms by simp
  then show ?thesis using True by (auto simp: rne_def Let_def)
next
  case False
  have "\<lfloor>a\<rfloor> \<le> \<lfloor>b\<rfloor>" using assms by (rule floor_mono)
  with False have "\<lfloor>a\<rfloor> + 1 \<le> \<lfloor>b\<rfloor>" by simp
  then show ?thesis using rne_bounds(4) [of a] rne_bounds(3) [of b] by linarith
qed

lemma exponent_bounds:
  assumes "0 < q"
  shows "2 powi (exponent q) \<le> q" and "q < 2 powi (exponent q + 1)"
proof -
  have "2 powi (exponent q) \<le> q \<and> q < 2 powi (exponent q + 1)"
  proof (cases "1 \<le> q")
    case True
    let ?m = "\<lfloor>q\<rfloor>"
    have m: "0 < ?m" using True by simp
    note b = bitlen_bounds [OF m]
    have e: "exponent q = bitlen ?m - 1" using True by (simp add: exponent_def)
    have p: "0 \<le> bitlen ?m - 1" using m by (simp add: bitlen_alt_def)
    have "(2::rat) powi (bitlen ?m - 1) = of_int (2 ^ nat (bitlen ?m - 1))"
      using p by (simp add: power_int_def)
    also have "\<dots> \<le> of_int ?m" using b by (simp only: of_int_le_iff)
    also have "\<dots> \<le> q" by simp
    finally have lo: "2 powi (exponent q) \<le> q" by (simp add: e)
    have "?m + 1 \<le> 2 ^ nat (bitlen ?m)" using b by simp
    then have "(of_int (?m + 1) :: rat) \<le> of_int (2 ^ nat (bitlen ?m))"
      by (simp only: of_int_le_iff)
    moreover have "q < of_int (?m + 1)" by simp linarith
    moreover have "(of_int (2 ^ nat (bitlen ?m)) :: rat) = 2 powi (bitlen ?m)"
      using p by (simp add: power_int_def)
    ultimately have "q < 2 powi (exponent q + 1)" by (simp add: e)
    with lo show ?thesis by simp
  next
    case False
    let ?r = "1 / q"
    let ?m = "\<lfloor>?r\<rfloor>"
    let ?f = "bitlen ?m - 1"
    have r1: "1 < ?r" using False assms by simp
    then have m: "0 < ?m" by simp
    note b = bitlen_bounds [OF m]
    have p: "0 \<le> ?f" using m by (simp add: bitlen_alt_def)
    have "(2::rat) powi ?f = of_int (2 ^ nat ?f)" using p by (simp add: power_int_def)
    also have "\<dots> \<le> of_int ?m" using b by (simp only: of_int_le_iff)
    also have "\<dots> \<le> ?r" by simp
    finally have lo: "2 powi ?f \<le> ?r" .
    have "?m + 1 \<le> 2 ^ nat (bitlen ?m)" using b by simp
    then have "(of_int (?m + 1) :: rat) \<le> of_int (2 ^ nat (bitlen ?m))"
      by (simp only: of_int_le_iff)
    moreover have "?r < of_int (?m + 1)" by simp linarith
    moreover have "(of_int (2 ^ nat (bitlen ?m)) :: rat) = 2 powi (?f + 1)"
      using p by (simp add: power_int_def)
    ultimately have hi: "?r < 2 powi (?f + 1)" by simp
    have pos: "(0::rat) < 2 powi ?f" "(0::rat) < 2 powi (?f + 1)" by simp_all
    have q_hi: "q \<le> 2 powi (- ?f)"
    proof -
      have "2 powi ?f * q \<le> 1" using lo assms by (simp only: pos_le_divide_eq)
      then have "q \<le> 1 / 2 powi ?f" using pos(1) by (simp only: pos_le_divide_eq mult.commute)
      then show ?thesis by (simp only: power_int_minus inverse_eq_divide)
    qed
    have q_lo: "2 powi (- ?f - 1) < q"
    proof -
      have "1 < 2 powi (?f + 1) * q" using hi assms by (simp only: pos_divide_less_eq)
      then have "1 / 2 powi (?f + 1) < q" using pos(2) by (simp only: pos_divide_less_eq mult.commute)
      moreover have "- ?f - 1 = - (?f + 1)" by simp
      ultimately show ?thesis by (simp only: power_int_minus inverse_eq_divide)
    qed
    show ?thesis
    proof (cases "q = 2 powi (- ?f)")
      case True
      then have e: "exponent q = - ?f" using False by (simp add: exponent_def Let_def)
      have "(2::rat) powi (- ?f) < 2 powi (- ?f + 1)" by (rule power_int_strict_increasing) simp_all
      then show ?thesis using True by (simp add: e)
    next
      case ne: False
      then have e: "exponent q = - ?f - 1" using False by (simp add: exponent_def Let_def)
      have "q < 2 powi (- ?f)" using q_hi ne by simp
      then show ?thesis using q_lo by (simp add: e)
    qed
  qed
  then show "2 powi (exponent q) \<le> q" and "q < 2 powi (exponent q + 1)" by simp_all
qed

lemma exponent_mono:
  assumes "0 < a" "a \<le> b" shows "exponent a \<le> exponent b"
proof (rule ccontr)
  assume "\<not> exponent a \<le> exponent b"
  then have "exponent b + 1 \<le> exponent a" by simp
  then have "(2::rat) powi (exponent b + 1) \<le> 2 powi (exponent a)"
    by (intro power_int_increasing) simp_all
  also have "\<dots> \<le> a" using assms(1) by (rule exponent_bounds)
  also have "\<dots> \<le> b" by fact
  finally show False using exponent_bounds(2) [of b] assms by simp
qed


lemma ulp_pos: "0 < ulp q"
  by (simp add: ulp_def)

lemma rne_nonneg: "0 \<le> q \<Longrightarrow> 0 \<le> rne q"
  using rne_bounds(3) [of q] by (simp add: order_trans [of 0 "\<lfloor>q\<rfloor>"])

lemma two_powi_split: "(2::rat) powi (e + 1) = 2 ^ 53 * 2 powi (e - 52)"
proof -
  have "e + 1 = 53 + (e - 52)" by simp
  then have "(2::rat) powi (e + 1) = 2 powi (53 + (e - 52))" by (rule arg_cong)
  also have "\<dots> = 2 powi 53 * 2 powi (e - 52)" by (rule power_int_add) simp
  finally show ?thesis by simp
qed

lemma two_powi_split': "(2::rat) powi e = 2 ^ 52 * 2 powi (e - 52)"
proof -
  have "e = 52 + (e - 52)" by simp
  then have "(2::rat) powi e = 2 powi (52 + (e - 52))" by (rule arg_cong)
  also have "\<dots> = 2 powi 52 * 2 powi (e - 52)" by (rule power_int_add) simp
  finally show ?thesis by simp
qed

lemma round_pos_mono:
  assumes "0 < a" "a \<le> b"
  shows "of_int (rne (a / ulp a)) * ulp a \<le> of_int (rne (b / ulp b)) * ulp b"
proof -
  let ?ea = "max (exponent a) (- 1022)" and ?eb = "max (exponent b) (- 1022)"
  have b: "0 < b" using assms by simp
  have le: "?ea \<le> ?eb" using exponent_mono [OF assms] by simp
  show ?thesis
  proof (cases "?ea = ?eb")
    case True
    then have u: "ulp a = ulp b" by (simp add: ulp_def)
    have "a / ulp b \<le> b / ulp b" using assms(2) ulp_pos [of b] by (simp add: divide_right_mono)
    then have "rne (a / ulp b) \<le> rne (b / ulp b)" by (rule rne_mono)
    then have "(of_int (rne (a / ulp b)) :: rat) \<le> of_int (rne (b / ulp b))" by simp
    then show ?thesis unfolding u using ulp_pos [of b] by (simp add: mult_right_mono)
  next
    case False
    with le have lt: "?ea + 1 \<le> ?eb" by simp
    then have eb: "?eb = exponent b" by (simp add: max_def split: if_splits)
    have "a < 2 powi (exponent a + 1)" using assms(1) by (rule exponent_bounds)
    also have "\<dots> \<le> 2 powi (?ea + 1)" by (intro power_int_increasing) simp_all
    also have "\<dots> = 2 ^ 53 * ulp a" unfolding ulp_def by (rule two_powi_split)
    finally have "a / ulp a \<le> of_int (2 ^ 53)" using ulp_pos [of a] by (simp add: pos_divide_le_eq)
    then have "rne (a / ulp a) \<le> rne (of_int (2 ^ 53))" by (rule rne_mono)
    then have "rne (a / ulp a) \<le> 2 ^ 53" by (simp only: rne_of_int)
    then have "(of_int (rne (a / ulp a)) :: rat) \<le> of_int (2 ^ 53)" by (simp only: of_int_le_iff)
    then have "of_int (rne (a / ulp a)) * ulp a \<le> of_int (2 ^ 53) * ulp a"
      using ulp_pos [of a] by (simp only: mult_right_mono less_imp_le)
    also have "\<dots> = 2 powi (?ea + 1)" unfolding ulp_def using two_powi_split [of ?ea] by simp
    also have "\<dots> \<le> 2 powi ?eb" using lt by (intro power_int_increasing) simp_all
    finally have lo: "of_int (rne (a / ulp a)) * ulp a \<le> 2 powi ?eb" .
    have "(2::rat) powi ?eb \<le> b" unfolding eb using b by (rule exponent_bounds)
    moreover have "(2::rat) powi ?eb = 2 ^ 52 * ulp b" unfolding ulp_def by (rule two_powi_split')
    ultimately have "of_int (2 ^ 52) \<le> b / ulp b" using ulp_pos [of b] by (simp add: pos_le_divide_eq)
    then have "rne (of_int (2 ^ 52)) \<le> rne (b / ulp b)" by (rule rne_mono)
    then have "2 ^ 52 \<le> rne (b / ulp b)" by (simp only: rne_of_int)
    then have "(of_int (2 ^ 52) :: rat) \<le> of_int (rne (b / ulp b))" by (simp only: of_int_le_iff)
    then have "of_int (2 ^ 52) * ulp b \<le> of_int (rne (b / ulp b)) * ulp b"
      using ulp_pos [of b] by (simp only: mult_right_mono less_imp_le)
    moreover have "of_int (2 ^ 52) * ulp b = 2 powi ?eb"
      unfolding ulp_def using two_powi_split' [of ?eb] by simp
    ultimately show ?thesis using lo by simp
  qed
qed

lemma round_pos_nonneg: "0 < q \<Longrightarrow> 0 \<le> of_int (rne (q / ulp q)) * ulp q"
  using ulp_pos [of q] rne_nonneg [of "q / ulp q"] by simp

lemma round_double_nonneg: "0 \<le> q \<Longrightarrow> 0 \<le> round_double q"
  using round_pos_nonneg [of q] by (simp add: round_double_def)

lemma round_double_mono:
  assumes "a \<le> b" shows "round_double a \<le> round_double b"
proof -
  consider "0 < a" | "a \<le> 0" "0 \<le> b" | "b < 0" using assms by linarith
  then show ?thesis
  proof cases
    case 1
    then have "0 < b" using assms by simp
    then show ?thesis using 1 round_pos_mono [OF 1 assms] by (simp add: round_double_def)
  next
    case 2
    have "round_double a \<le> 0"
      using 2(1) round_pos_nonneg [of "- a"] by (cases "a = 0") (simp_all add: round_double_def)
    also have "0 \<le> round_double b" using 2(2) by (rule round_double_nonneg)
    finally show ?thesis .
  next
    case 3
    then have a: "a < 0" using assms by simp
    have "0 < - b" "- b \<le> - a" using 3 assms by simp_all
    from round_pos_mono [OF this] show ?thesis using 3 a by (simp add: round_double_def)
  qed
qed

lemma round_double_1: "round_double 1 = 1"
  by code_simp

lemma round_double_0: "round_double 0 = 0"
  by (simp add: round_double_def)

lemma exponent_less:
  assumes "0 < q" "q < 2 powi e"
  shows "exponent q < e"
proof (rule ccontr)
  assume "\<not> exponent q < e"
  then have "(2::rat) powi e \<le> 2 powi (exponent q)" by (intro power_int_increasing) simp_all
  also have "\<dots> \<le> q" using assms(1) by (rule exponent_bounds)
  finally show False using assms(2) by simp
qed

lemma round_pos_upper:
  assumes "0 < q"
  shows "of_int (rne (q / ulp q)) * ulp q \<le> 2 powi (max (exponent q) (- 1022) + 1)"
proof -
  let ?e = "max (exponent q) (- 1022)"
  have "q < 2 powi (exponent q + 1)" using assms by (rule exponent_bounds)
  also have "\<dots> \<le> 2 powi (?e + 1)" by (intro power_int_increasing) simp_all
  also have "\<dots> = 2 ^ 53 * ulp q" unfolding ulp_def by (rule two_powi_split)
  finally have "q / ulp q \<le> of_int (2 ^ 53)" using ulp_pos [of q] by (simp add: pos_divide_le_eq)
  then have "rne (q / ulp q) \<le> rne (of_int (2 ^ 53))" by (rule rne_mono)
  then have "rne (q / ulp q) \<le> 2 ^ 53" by (simp only: rne_of_int)
  then have "(of_int (rne (q / ulp q)) :: rat) \<le> of_int (2 ^ 53)" by (simp only: of_int_le_iff)
  then have "of_int (rne (q / ulp q)) * ulp q \<le> of_int (2 ^ 53) * ulp q"
    using ulp_pos [of q] by (simp only: mult_right_mono less_imp_le)
  also have "\<dots> = 2 powi (?e + 1)" unfolding ulp_def using two_powi_split [of ?e] by simp
  finally show ?thesis .
qed

lemma round_double_below:
  assumes "0 \<le> q" "q < 2 powi e" "- 1021 \<le> e"
  shows "round_double q \<le> 2 powi e"
proof (cases "q = 0")
  case True
  then show ?thesis by (simp add: round_double_def)
next
  case False
  then have q: "0 < q" using assms(1) by simp
  have "exponent q < e" using q assms(2) by (rule exponent_less)
  then have "max (exponent q) (- 1022) + 1 \<le> e" using assms(3) by simp
  then have "(2::rat) powi (max (exponent q) (- 1022) + 1) \<le> 2 powi e"
    by (intro power_int_increasing) simp_all
  with round_pos_upper [OF q] show ?thesis using q by (simp add: round_double_def)
qed

lemma is_finite_mono:
  assumes "0 \<le> a" "a \<le> b" "is_finite b"
  shows "is_finite a"
proof (cases "a = 0")
  case True
  then show ?thesis by (simp add: is_finite_def)
next
  case False
  then have a: "0 < a" using assms(1) by simp
  then have b: "0 < b" using assms(2) by simp
  have "exponent a \<le> exponent b" using a assms(2) by (rule exponent_mono)
  then show ?thesis using assms(3) a b by (simp add: is_finite_def)
qed

lemma is_finite_below:
  assumes "0 \<le> q" "q < 2 powi 1024"
  shows "is_finite q"
proof (cases "q = 0")
  case True
  then show ?thesis by (simp add: is_finite_def)
next
  case False
  then have q: "0 < q" using assms(1) by simp
  from exponent_less [OF q assms(2)] q show ?thesis by (simp add: is_finite_def)
qed

lemma round_double_finite:
  assumes "0 \<le> q" "q \<le> 2 powi 1000"
  shows "is_finite (round_double q)" and "round_double q \<le> 2 powi 1001"
proof -
  have "(2::rat) powi 1000 < 2 powi 1001" by (intro power_int_strict_increasing) simp_all
  then have "q < 2 powi 1001" using assms(2) by simp
  from round_double_below [OF assms(1) this] show u: "round_double q \<le> 2 powi 1001" by simp
  have "(2::rat) powi 1001 < 2 powi 1024" by (intro power_int_strict_increasing) simp_all
  then have "round_double q < 2 powi 1024" using u by simp
  with round_double_nonneg [OF assms(1)] show "is_finite (round_double q)"
    by (rule is_finite_below)
qed

section \<open>Facts about the rasterizer\<close>

lemma anchor_ok_Suc:
  "anchor_ok all j i \<Longrightarrow> length (all ! i) < 2 \<Longrightarrow> anchor_ok all j (Suc i)"
  by (auto simp: anchor_ok_def less_Suc_eq)

lemma anchor_ok_self:
  "2 \<le> length (all ! i) \<Longrightarrow> \<not> is_break (all ! i) \<Longrightarrow> anchor_ok all i (Suc i)"
  by (auto simp: anchor_ok_def)

lemma color_ok_Suc:
  "color_ok all i c \<Longrightarrow> \<not> is_color_change (all ! i) \<Longrightarrow> color_ok all (Suc i) c"
  unfolding color_ok_def
  by (elim disjE exE conjE) (auto simp: less_Suc_eq)

lemma color_ok_change:
  "is_color_change (all ! i) \<Longrightarrow> color_ok all (Suc i) (colors ! ((i div 100) mod 6))"
  unfolding color_ok_def by (intro disjI1 exI [of _ i]) auto

lemma color_ok_unique:
  assumes "color_ok all i c" "k < i" "is_color_change (all ! k)"
    and "\<forall>m. k < m \<and> m < i \<longrightarrow> \<not> is_color_change (all ! m)"
  shows "c = colors ! ((k div 100) mod 6)"
proof -
  from assms(1-3) obtain k' where k': "k' < i" "is_color_change (all ! k')"
    "\<forall>m. k' < m \<and> m < i \<longrightarrow> \<not> is_color_change (all ! m)" "c = colors ! ((k' div 100) mod 6)"
    unfolding color_ok_def by blast
  have "\<not> k' < k" using k'(3) assms(2,3) by blast
  moreover have "\<not> k < k'" using assms(4) k'(1,2) by blast
  ultimately have "k' = k" by simp
  then show ?thesis using k'(4) by simp
qed

lemmas command_defs = STITCH_def JUMP_def TRIM_def STOP_def COLOR_CHANGE_def

lemma draw_step_short: "length s < 2 \<Longrightarrow> draw_step S sc i s pn = Some pn"
  by (simp add: draw_step_def)

lemma draw_step_adjusted:
  "2 \<le> length s \<Longrightarrow> draw_step S sc i s pn = Some pn' \<Longrightarrow> \<exists>pt. adjusted S sc s = Some pt"
  by (cases "adjusted S sc s") (simp_all add: draw_step_def Let_def)

lemma draw_step_color_change:
  assumes "is_color_change s" "adjusted S sc s = Some pt"
  shows "draw_step S sc i s pn =
     Some (pn\<lparr>stitch_color := colors ! ((i div 100) mod 6), prev_point := Some (i, pt)\<rparr>)"
  using assms by (simp add: draw_step_def is_color_change_def colors_def)

lemma draw_step_break:
  assumes "is_break s" "adjusted S sc s = Some pt"
  shows "draw_step S sc i s pn = Some (pn\<lparr>prev_point := None\<rparr>)"
  using assms by (auto simp: draw_step_def is_break_def Let_def command_defs)

lemma draw_step_other:
  assumes "2 \<le> length s" "\<not> is_break s" "\<not> is_color_change s" "adjusted S sc s = Some pt"
    and "draw_step S sc i s pn = Some pn'"
  shows "prev_point pn' = Some (i, pt)" and "stitch_color pn' = stitch_color pn"
    and "drawn pn' = drawn pn
         \<or> (is_stitch s \<and> (\<exists>j q. prev_point pn = Some (j, q) \<and>
              drawn pn' = drawn pn @
                [\<lparr>src = j, dst = i, p0 = q, p1 = pt, fill = stitch_color pn\<rparr>]))"
  using assms
  by (auto simp: draw_step_def is_break_def is_color_change_def is_stitch_def Let_def
      command_defs split: option.splits if_splits)

lemma pen_inv_step:
  assumes "pen_inv all sc i pn" and "draw_step all sc i (all ! i) pn = Some pn'"
  shows "pen_inv all sc (Suc i) pn'"
proof (cases "length (all ! i) < 2")
  case True
  then have e: "pn' = pn" using assms(2) by (simp add: draw_step_short)
  have n: "\<not> is_color_change (all ! i)" using True by (simp add: is_color_change_def)
  show ?thesis using assms(1) True unfolding e pen_inv_def
    by (auto simp: less_Suc_eq intro: anchor_ok_Suc color_ok_Suc [OF _ n])
next
  case long: False
  then have l2: "2 \<le> length (all ! i)" by simp
  from draw_step_adjusted [OF l2 assms(2)] obtain pt where pt: "adjusted all sc (all ! i) = Some pt"
    by blast
  have old: "\<forall>l \<in> set (drawn pn). dst l < Suc i \<and> anchor_ok all (src l) (dst l)
          \<and> is_stitch (all ! dst l)
          \<and> adjusted all sc (all ! src l) = Some (p0 l)
          \<and> adjusted all sc (all ! dst l) = Some (p1 l)
          \<and> color_ok all (dst l) (fill l)"
    using assms(1) by (auto simp: pen_inv_def less_Suc_eq)
  have col: "color_ok all i (stitch_color pn)" using assms(1) by (simp add: pen_inv_def)
  show ?thesis
  proof (cases "is_break (all ! i)")
    case True
    then have n: "\<not> is_color_change (all ! i)"
      by (auto simp: is_break_def is_color_change_def command_defs)
    have e: "pn' = pn\<lparr>prev_point := None\<rparr>"
      using draw_step_break [OF True pt, of i pn] assms(2) by simp
    show ?thesis unfolding e pen_inv_def using old color_ok_Suc [OF col n] by simp
  next
    case nb: False
    have a: "anchor_ok all i (Suc i)" using l2 nb by (rule anchor_ok_self)
    show ?thesis
    proof (cases "is_color_change (all ! i)")
      case True
      have e: "pn' = pn\<lparr>stitch_color := colors ! ((i div 100) mod 6), prev_point := Some (i, pt)\<rparr>"
        using draw_step_color_change [OF True pt, of i pn] assms(2) by simp
      show ?thesis unfolding e pen_inv_def using old a pt color_ok_change [OF True] by simp
    next
      case nc: False
      note o = draw_step_other [OF l2 nb nc pt assms(2)]
      have new: "\<forall>l \<in> set (drawn pn'). dst l < Suc i \<and> anchor_ok all (src l) (dst l)
          \<and> is_stitch (all ! dst l)
          \<and> adjusted all sc (all ! src l) = Some (p0 l)
          \<and> adjusted all sc (all ! dst l) = Some (p1 l)
          \<and> color_ok all (dst l) (fill l)"
        using o(3)
      proof
        assume "drawn pn' = drawn pn"
        then show ?thesis using old by simp
      next
        assume "is_stitch (all ! i) \<and> (\<exists>j q. prev_point pn = Some (j, q) \<and>
              drawn pn' = drawn pn @
                [\<lparr>src = j, dst = i, p0 = q, p1 = pt, fill = stitch_color pn\<rparr>])"
        then obtain j q where st: "is_stitch (all ! i)" and p: "prev_point pn = Some (j, q)"
          and d: "drawn pn' = drawn pn @
                [\<lparr>src = j, dst = i, p0 = q, p1 = pt, fill = stitch_color pn\<rparr>]"
          by blast
        have "anchor_ok all j i \<and> adjusted all sc (all ! j) = Some q"
          using assms(1) p by (cases q) (auto simp: pen_inv_def)
        then show ?thesis using old st pt col by (simp add: d)
      qed
      show ?thesis unfolding pen_inv_def
        using new a pt color_ok_Suc [OF col nc] by (simp add: o(1,2))
    qed
  qed
qed

lemma pen_inv_loop:
  assumes "pen_inv all sc i pn" "rest = drop i all" "i \<le> length all"
    and "draw_loop all sc i rest pn = Some pn'"
  shows "pen_inv all sc (length all) pn'"
  using assms
proof (induction rest arbitrary: i pn)
  case Nil
  then have "i = length all" by simp
  then show ?case using Nil(1,4) by simp
next
  case (Cons s rest)
  from Cons.prems(2) have i: "i < length all" by (metis drop_eq_Nil2 list.distinct(1) not_le)
  have s: "s = all ! i" and r: "rest = drop (Suc i) all"
    using Cons.prems(2) i by (simp_all add: Cons_nth_drop_Suc [symmetric])
  from Cons.prems(4) obtain pm where m: "draw_step all sc i s pn = Some pm"
    and l: "draw_loop all sc (Suc i) rest pm = Some pn'"
    by (auto split: option.splits)
  have "pen_inv all sc (Suc i) pm" using Cons.prems(1) m unfolding s by (rule pen_inv_step)
  from Cons.IH [OF this r _ l] i show ?case by simp
qed

lemma pen_inv_initial: "pen_inv all sc 0 initial_pen"
  by (simp add: pen_inv_def initial_pen_def color_ok_def)

lemma draw_loop_append:
  "draw_loop S sc i (xs @ ys) pn =
     (case draw_loop S sc i xs pn of
        None \<Rightarrow> None
      | Some pm \<Rightarrow> draw_loop S sc (i + length xs) ys pm)"
  by (induction xs arbitrary: i pn) (auto split: option.splits)

lemma draw_step_total:
  assumes "2 \<le> length s \<longrightarrow> adjusted S sc s \<noteq> None"
  shows "\<exists>pn'. draw_step S sc i s pn = Some pn'"
  using assms by (auto simp: draw_step_def Let_def split: option.splits)

lemma draw_loop_total:
  assumes "\<forall>s \<in> set rest. 2 \<le> length s \<longrightarrow> adjusted S sc s \<noteq> None"
  shows "\<exists>pn'. draw_loop S sc i rest pn = Some pn'"
  using assms
proof (induction rest arbitrary: i pn)
  case Nil
  show ?case by simp
next
  case (Cons s rest)
  from Cons.prems have "2 \<le> length s \<longrightarrow> adjusted S sc s \<noteq> None" by simp
  from draw_step_total [OF this] obtain pm where m: "draw_step S sc i s pn = Some pm" by blast
  from Cons.IH [of "Suc i" pm] Cons.prems show ?case by (simp add: m)
qed

lemma py_min_le: "x \<in> set xs \<Longrightarrow> py_min xs \<le> x"
proof (cases xs)
  case Nil then show "x \<in> set xs \<Longrightarrow> ?thesis" by simp
next
  case (Cons a as)
  assume x: "x \<in> set xs"
  have "py_min xs = Min (set (a # as))"
    unfolding Min.set_eq_fold by (simp add: py_min_def Cons)
  then show ?thesis using x Cons by (simp del: set_simps)
qed

lemma py_max_ge: "x \<in> set xs \<Longrightarrow> x \<le> py_max xs"
proof (cases xs)
  case Nil then show "x \<in> set xs \<Longrightarrow> ?thesis" by simp
next
  case (Cons a as)
  assume x: "x \<in> set xs"
  have "py_max xs = Max (set (a # as))"
    unfolding Max.set_eq_fold by (simp add: py_max_def Cons)
  then show ?thesis using x Cons by (simp del: set_simps)
qed

lemma coords_mem:
  "s \<in> set stitches \<Longrightarrow> 2 \<le> length s \<Longrightarrow> s ! 0 \<in> set (x_coords stitches)"
  "s \<in> set stitches \<Longrightarrow> 2 \<le> length s \<Longrightarrow> s ! 1 \<in> set (y_coords stitches)"
  by (auto simp: x_coords_def y_coords_def)

lemma y_coords_empty: "(y_coords stitches = []) = (x_coords stitches = [])"
  by (simp add: x_coords_def y_coords_def)

lemma finite_double_Some: "(finite_double q = Some r) = (r = q \<and> is_finite q)"
  by (auto simp: finite_double_def)

lemma py_truediv_nonneg:
  assumes "py_truediv a b = Some q" "0 \<le> a" "0 < b"
  shows "0 \<le> q" and "q = round_double (of_int a / of_int b)"
proof -
  show q: "q = round_double (of_int a / of_int b)"
    using assms by (auto simp: py_truediv_def finite_double_Some split: if_splits)
  have "(0::rat) \<le> of_int a / of_int b" using assms(2,3) by simp
  then show "0 \<le> q" unfolding q by (rule round_double_nonneg)
qed

lemma scale_le_1: "scale image_size stitches = Some sc \<Longrightarrow> sc \<le> 1"
  by (auto simp: scale_def min.coboundedI2 split: if_splits option.splits)

lemma scale_nonneg:
  assumes "scale image_size stitches = Some sc"
    and "2 * padding \<le> fst image_size" "2 * padding \<le> snd image_size"
  shows "0 \<le> sc"
proof (cases "0 < pattern_width stitches \<and> 0 < pattern_height stitches")
  case True
  then obtain sx sy where
    sx: "py_truediv (fst image_size - 2 * padding) (pattern_width stitches) = Some sx"
    and sy: "py_truediv (snd image_size - 2 * padding) (pattern_height stitches) = Some sy"
    and sc: "sc = min sx (min sy 1)"
    using assms(1) by (auto simp: scale_def split: option.splits)
  have "0 \<le> sx" using sx assms(2) True by (intro py_truediv_nonneg(1) [OF sx]) simp_all
  moreover have "0 \<le> sy" using sy assms(3) True by (intro py_truediv_nonneg(1) [OF sy]) simp_all
  ultimately show ?thesis by (simp add: sc)
next
  case False
  then show ?thesis using assms(1) by (auto simp: scale_def)
qed

lemma py_int_mono: "0 \<le> a \<Longrightarrow> a \<le> b \<Longrightarrow> 0 \<le> py_int a \<and> py_int a \<le> py_int b"
  by (auto simp: py_int_def floor_mono)

lemma int_of_product_Some:
  "(int_of_product n sc = Some p) =
     (is_finite (round_double (of_int n))
      \<and> is_finite (round_double (round_double (of_int n) * sc))
      \<and> p = py_int (round_double (round_double (of_int n) * sc)))"
  by (auto simp: int_of_product_def py_float_def finite_double_def split: option.splits)

lemma int_of_product_mono:
  assumes "0 \<le> sc" "0 \<le> a" "a \<le> b" "int_of_product b sc = Some pb"
  shows "\<exists>pa. int_of_product a sc = Some pa \<and> 0 \<le> pa \<and> pa \<le> pb"
proof -
  let ?fa = "round_double (of_int a)" and ?fb = "round_double (of_int b)"
  have fa0: "0 \<le> ?fa" using assms(2) by (intro round_double_nonneg) simp
  have fab: "?fa \<le> ?fb" using assms(3) by (intro round_double_mono) simp
  from assms(4) have fb: "is_finite ?fb" and mb: "is_finite (round_double (?fb * sc))"
    and pb: "pb = py_int (round_double (?fb * sc))"
    by (simp_all add: int_of_product_Some)
  have m0: "0 \<le> round_double (?fa * sc)" using fa0 assms(1) by (intro round_double_nonneg) simp
  have "?fa * sc \<le> ?fb * sc" using fab assms(1) by (rule mult_right_mono)
  then have mab: "round_double (?fa * sc) \<le> round_double (?fb * sc)" by (rule round_double_mono)
  have "is_finite ?fa" using fa0 fab fb by (rule is_finite_mono)
  moreover have "is_finite (round_double (?fa * sc))" using m0 mab mb by (rule is_finite_mono)
  ultimately have "int_of_product a sc = Some (py_int (round_double (?fa * sc)))"
    by (simp add: int_of_product_Some)
  then show ?thesis using py_int_mono [OF m0 mab] by (simp add: pb)
qed

lemma adjusted_in_canvas:
  assumes "s \<in> set stitches" "2 \<le> length s" "0 \<le> sc"
    and "canvas_size stitches sc = Some (w, h)"
  shows "\<exists>x y. adjusted stitches sc s = Some (x, y)
           \<and> 0 \<le> x \<and> x < w \<and> 0 \<le> y \<and> y < h"
proof -
  from assms(4) obtain w0 h0 where
    w0: "int_of_product (pattern_width stitches) sc = Some w0" and w: "w = w0 + 2 * padding"
    and h0: "int_of_product (pattern_height stitches) sc = Some h0" and h: "h = h0 + 2 * padding"
    by (auto simp: canvas_size_def split: option.splits)
  note x = coords_mem(1) [OF assms(1,2)]
  note y = coords_mem(2) [OF assms(1,2)]
  have x0: "0 \<le> s ! 0 - py_min (x_coords stitches)" using py_min_le [OF x] by simp
  have x1: "s ! 0 - py_min (x_coords stitches) \<le> pattern_width stitches"
    using py_max_ge [OF x] by (simp add: pattern_width_def)
  have y0: "0 \<le> s ! 1 - py_min (y_coords stitches)" using py_min_le [OF y] by simp
  have y1: "s ! 1 - py_min (y_coords stitches) \<le> pattern_height stitches"
    using py_max_ge [OF y] by (simp add: pattern_height_def)
  from int_of_product_mono [OF assms(3) x0 x1 w0] obtain ax where
    ax: "int_of_product (s ! 0 - py_min (x_coords stitches)) sc = Some ax" "0 \<le> ax" "ax \<le> w0"
    by blast
  from int_of_product_mono [OF assms(3) y0 y1 h0] obtain ay where
    ay: "int_of_product (s ! 1 - py_min (y_coords stitches)) sc = Some ay" "0 \<le> ay" "ay \<le> h0"
    by blast
  have "adjusted stitches sc s = Some (ax + padding, ay + padding)"
    unfolding adjusted_def ax(1) ay(1) by simp
  then show ?thesis using ax(2,3) ay(2,3) by (simp add: w h padding_def)
qed

lemma render_Some:
  assumes "render lib image_size stitches = Some img"
  shows "\<exists>sc pn. scale image_size stitches = Some sc
     \<and> canvas_size stitches sc = Some (img_width img, img_height img)
     \<and> new_image lib (img_width img, img_height img)
     \<and> save_jpeg lib (img_width img, img_height img)
     \<and> draw_loop stitches sc 0 stitches initial_pen = Some pn
     \<and> lines img = drawn pn"
  using assms by (auto simp: render_def split: option.splits if_splits)

lemma convert_Some:
  assumes "convert_pes_to_jpg lib image_size stitches = Inr (Some img)"
  shows "render lib image_size stitches = Some img" and "x_coords stitches \<noteq> []"
  using assms by (auto simp: convert_pes_to_jpg_def split: option.splits if_splits)

lemma rendered_invariant:
  assumes "convert_pes_to_jpg lib image_size stitches = Inr (Some img)"
  shows "\<exists>sc pn. scale image_size stitches = Some sc
     \<and> draw_loop stitches sc 0 stitches initial_pen = Some pn
     \<and> lines img = drawn pn \<and> pen_inv stitches sc (length stitches) pn"
proof -
  from render_Some [OF convert_Some(1) [OF assms]] obtain sc pn where
    sc: "scale image_size stitches = Some sc"
    and l: "draw_loop stitches sc 0 stitches initial_pen = Some pn" and d: "lines img = drawn pn"
    by blast
  have "pen_inv stitches sc (length stitches) pn"
    by (rule pen_inv_loop [OF pen_inv_initial _ _ l]) simp_all
  with sc l d show ?thesis by blast
qed

lemma pattern_size_nonneg:
  assumes "x_coords stitches \<noteq> []"
  shows "0 \<le> pattern_width stitches" and "0 \<le> pattern_height stitches"
proof -
  obtain a where a: "a \<in> set (x_coords stitches)" using assms by (cases "x_coords stitches") auto
  from py_min_le [OF a] py_max_ge [OF a] show "0 \<le> pattern_width stitches"
    by (simp add: pattern_width_def)
  have "y_coords stitches \<noteq> []" using assms by (simp add: y_coords_empty)
  then obtain b where b: "b \<in> set (y_coords stitches)" by (cases "y_coords stitches") auto
  from py_min_le [OF b] py_max_ge [OF b] show "0 \<le> pattern_height stitches"
    by (simp add: pattern_height_def)
qed

lemma of_int_below:
  assumes "n < 2 ^ 1000"
  shows "(of_int n :: rat) \<le> 2 powi 1000"
proof -
  have "(of_int n :: rat) < of_int (2 ^ 1000)" using assms by (simp only: of_int_less_iff)
  then show ?thesis by simp
qed

lemma py_truediv_total:
  assumes "0 \<le> a" "a < 2 ^ 1000" "0 < b"
  shows "\<exists>q. py_truediv a b = Some q"
proof -
  have "(1::rat) \<le> of_int b" using assms(3) by simp
  then have "(of_int a :: rat) / of_int b \<le> of_int a / 1"
    using assms(1) by (intro divide_left_mono) simp_all
  also have "\<dots> \<le> 2 powi 1000" using of_int_below [OF assms(2)] by simp
  finally have "(of_int a :: rat) / of_int b \<le> 2 powi 1000" .
  moreover have "(0::rat) \<le> of_int a / of_int b" using assms(1,3) by simp
  ultimately have "is_finite (round_double (of_int a / of_int b))" by (intro round_double_finite)
  then show ?thesis using assms(3) by (simp add: py_truediv_def finite_double_def)
qed

lemma scale_total:
  assumes "2 * padding \<le> fst image_size" "2 * padding \<le> snd image_size"
    and "fst image_size < 2 ^ 1000" "snd image_size < 2 ^ 1000"
  shows "\<exists>sc. scale image_size stitches = Some sc"
proof (cases "0 < pattern_width stitches \<and> 0 < pattern_height stitches")
  case True
  have p: "0 \<le> padding" by (simp add: padding_def)
  have "fst image_size - 2 * padding < 2 ^ 1000" using assms(3) p by linarith
  from py_truediv_total [OF _ this, of "pattern_width stitches"]
  obtain sx where "py_truediv (fst image_size - 2 * padding) (pattern_width stitches) = Some sx"
    using assms(1) True by auto
  moreover have "snd image_size - 2 * padding < 2 ^ 1000" using assms(4) p by linarith
  from py_truediv_total [OF _ this, of "pattern_height stitches"]
  obtain sy where "py_truediv (snd image_size - 2 * padding) (pattern_height stitches) = Some sy"
    using assms(2) True by auto
  ultimately show ?thesis using True by (simp add: scale_def)
next
  case False
  then show ?thesis by (auto simp: scale_def)
qed

lemma int_of_product_total:
  assumes "0 \<le> sc" "sc \<le> 1" "0 \<le> n" "n < 2 ^ 1000"
  shows "\<exists>p. int_of_product n sc = Some p"
proof -
  let ?f = "round_double (of_int n)"
  have n0: "(0::rat) \<le> of_int n" using assms(3) by simp
  note n1 = of_int_below [OF assms(4)]
  have f0: "0 \<le> ?f" using n0 by (rule round_double_nonneg)
  have "(of_int n :: rat) < of_int (2 ^ 1000)" using assms(4) by (simp only: of_int_less_iff)
  then have "(of_int n :: rat) < 2 powi 1000" by simp
  from round_double_below [OF n0 this] have f1: "?f \<le> 2 powi 1000" by simp
  have a: "is_finite ?f" using n0 n1 by (rule round_double_finite)
  have "?f * sc \<le> ?f * 1" using assms(2) f0 by (rule mult_left_mono)
  then have "?f * sc \<le> 2 powi 1000" using f1 by simp
  moreover have "0 \<le> ?f * sc" using f0 assms(1) by simp
  ultimately have "is_finite (round_double (?f * sc))" by (intro round_double_finite)
  with a show ?thesis by (simp add: int_of_product_Some)
qed

lemma canvas_size_total:
  assumes "0 \<le> sc" "sc \<le> 1" "x_coords stitches \<noteq> []"
    and "pattern_width stitches < 2 ^ 1000" "pattern_height stitches < 2 ^ 1000"
  shows "\<exists>w h. canvas_size stitches sc = Some (w, h)"
proof -
  note n = pattern_size_nonneg [OF assms(3)]
  from int_of_product_total [OF assms(1,2) n(1) assms(4)] obtain w where
    "int_of_product (pattern_width stitches) sc = Some w" by blast
  moreover from int_of_product_total [OF assms(1,2) n(2) assms(5)] obtain h where
    "int_of_product (pattern_height stitches) sc = Some h" by blast
  ultimately show ?thesis by (simp add: canvas_size_def)
qed

lemma canvas_size_Some:
  assumes "canvas_size stitches sc = Some (w, h)"
  shows "w = py_int (round_double (round_double (of_int (pattern_width stitches)) * sc)) + 2 * padding"
    and "h = py_int (round_double (round_double (of_int (pattern_height stitches)) * sc)) + 2 * padding"
  using assms by (auto simp: canvas_size_def int_of_product_Some split: option.splits)

lemma scale_value:
  assumes "scale image_size stitches = Some sc"
    and "0 < pattern_width stitches \<and> 0 < pattern_height stitches"
  shows "sc = Min {round_double (of_int (fst image_size - 2 * padding) / of_int (pattern_width stitches)),
                   round_double (of_int (snd image_size - 2 * padding) / of_int (pattern_height stitches)),
                   1}"
    and "sc = round_double (Min {of_int (fst image_size - 2 * padding) / of_int (pattern_width stitches),
                   of_int (snd image_size - 2 * padding) / of_int (pattern_height stitches), 1})"
proof -
  let ?qx = "of_int (fst image_size - 2 * padding) / of_int (pattern_width stitches) :: rat"
  let ?qy = "of_int (snd image_size - 2 * padding) / of_int (pattern_height stitches) :: rat"
  have e: "sc = min (round_double ?qx) (min (round_double ?qy) 1)"
    using assms
    by (auto simp: scale_def py_truediv_def finite_double_Some split: option.splits if_splits)
  have m: "mono round_double" by (simp add: mono_def round_double_mono)
  show "sc = Min {round_double ?qx, round_double ?qy, 1}" by (simp add: e)
  have "round_double (min ?qx (min ?qy 1)) = min (round_double ?qx) (min (round_double ?qy) 1)"
    by (simp only: min_of_mono [OF m, symmetric] round_double_1)
  then show "sc = round_double (Min {?qx, ?qy, 1})" by (simp add: e)
qed

lemma convert_total:
  assumes "x_coords stitches \<noteq> []" "scale image_size stitches = Some sc" "0 \<le> sc"
    and "canvas_size stitches sc = Some (w, h)"
    and "new_image lib (w, h)" "save_jpeg lib (w, h)"
  shows "\<exists>pn. draw_loop stitches sc 0 stitches initial_pen = Some pn
     \<and> convert_pes_to_jpg lib image_size stitches =
         Inr (Some \<lparr>img_width = w, img_height = h, lines = drawn pn\<rparr>)"
proof -
  have "\<forall>s \<in> set stitches. 2 \<le> length s \<longrightarrow> adjusted stitches sc s \<noteq> None"
    using adjusted_in_canvas [OF _ _ assms(3,4)] by fastforce
  from draw_loop_total [OF this] obtain pn where
    pn: "draw_loop stitches sc 0 stitches initial_pen = Some pn" by blast
  have "stitches \<noteq> []" using assms(1) by (auto simp: x_coords_def)
  then have "convert_pes_to_jpg lib image_size stitches =
         Inr (Some \<lparr>img_width = w, img_height = h, lines = drawn pn\<rparr>)"
    using assms(1,2,4,5,6) pn by (simp add: convert_pes_to_jpg_def render_def y_coords_empty)
  with pn show ?thesis by blast
qed

text \<open>
  A design 70000 units wide and of height zero is not scaled down; its canvas of
  70100 pixels is more than the JPEG writer takes, and the conversion ends in the
  ConversionError.
\<close>

lemma oversized_canvas_is_an_error:
  "convert_pes_to_jpg plain_pillow (800, 600) [[0, 0, 0], [70000, 0, 0]] =
     Inl (ConversionError ''Conversion error'')"
  by code_simp

section \<open>Claims about the rasterizer\<close>

text \<open>
  C7.  For a stitch sequence with at least one coordinate, on a canvas at least as
  large as twice the padding (the configured 800 x 600 is), the scale factor is at
  most 1; it is the least of the float quotients available-width / pattern-width and
  available-height / pattern-height and of 1.0 when the pattern has positive width and
  height, which is also the double nearest to the least of the exact quotients and 1;
  it is 1.0 when the width or the height is zero.  The canvas is the scaled pattern
  size, as \<open>int(pattern_width * scale)\<close> computes it in floats, plus twice the padding
  on each axis; every transformed stitch point lies inside that canvas; and when
  Pillow creates and saves a canvas of that size, the conversion returns the image
  with these dimensions.  A conversion that returned an image has computed this scale
  and this canvas, and for sizes below \<open>2 ^ 1000\<close> no float operation overflows.
\<close>

theorem scale_and_canvas:
  assumes "x_coords stitches \<noteq> []"
    and "2 * padding \<le> fst image_size" and "2 * padding \<le> snd image_size"
  shows "(\<forall>sc. scale image_size stitches = Some sc \<longrightarrow>
            sc \<le> 1
          \<and> (0 < pattern_width stitches \<and> 0 < pattern_height stitches \<longrightarrow>
               sc = Min {round_double (of_int (fst image_size - 2 * padding)
                                        / of_int (pattern_width stitches)),
                         round_double (of_int (snd image_size - 2 * padding)
                                        / of_int (pattern_height stitches)),
                         1}
             \<and> sc = round_double
                      (Min {of_int (fst image_size - 2 * padding) / of_int (pattern_width stitches),
                            of_int (snd image_size - 2 * padding) / of_int (pattern_height stitches),
                            1}))
          \<and> (pattern_width stitches = 0 \<or> pattern_height stitches = 0 \<longrightarrow> sc = 1)
          \<and> (\<forall>w h. canvas_size stitches sc = Some (w, h) \<longrightarrow>
                w = py_int (round_double (round_double (of_int (pattern_width stitches)) * sc))
                      + 2 * padding
              \<and> h = py_int (round_double (round_double (of_int (pattern_height stitches)) * sc))
                      + 2 * padding
              \<and> (\<forall>s \<in> set stitches. 2 \<le> length s \<longrightarrow>
                    (\<exists>x y. adjusted stitches sc s = Some (x, y)
                       \<and> 0 \<le> x \<and> x < w \<and> 0 \<le> y \<and> y < h))
              \<and> (new_image lib (w, h) \<and> save_jpeg lib (w, h) \<longrightarrow>
                    (\<exists>pn. draw_loop stitches sc 0 stitches initial_pen = Some pn
                       \<and> convert_pes_to_jpg lib image_size stitches =
                           Inr (Some \<lparr>img_width = w, img_height = h, lines = drawn pn\<rparr>)))))
     \<and> (\<forall>img. convert_pes_to_jpg lib image_size stitches = Inr (Some img) \<longrightarrow>
          (\<exists>sc. scale image_size stitches = Some sc
             \<and> canvas_size stitches sc = Some (img_width img, img_height img)))
     \<and> (fst image_size < 2 ^ 1000 \<and> snd image_size < 2 ^ 1000
          \<and> pattern_width stitches < 2 ^ 1000 \<and> pattern_height stitches < 2 ^ 1000 \<longrightarrow>
          (\<exists>sc w h. scale image_size stitches = Some sc
             \<and> canvas_size stitches sc = Some (w, h)))"
proof (intro conjI allI impI)
  fix sc
  assume sc: "scale image_size stitches = Some sc"
  show "sc \<le> 1" using sc by (rule scale_le_1)
  {
    assume p: "0 < pattern_width stitches \<and> 0 < pattern_height stitches"
    show "sc = Min {round_double (of_int (fst image_size - 2 * padding)
                                        / of_int (pattern_width stitches)),
                         round_double (of_int (snd image_size - 2 * padding)
                                        / of_int (pattern_height stitches)),
                         1}"
      using sc p by (rule scale_value(1))
    show "sc = round_double
                      (Min {of_int (fst image_size - 2 * padding) / of_int (pattern_width stitches),
                            of_int (snd image_size - 2 * padding) / of_int (pattern_height stitches),
                            1})"
      using sc p by (rule scale_value(2))
  }
  {
    assume "pattern_width stitches = 0 \<or> pattern_height stitches = 0"
    then show "sc = 1" using sc by (auto simp: scale_def)
  }
  have nn: "0 \<le> sc" using sc assms(2,3) by (rule scale_nonneg)
  fix w h
  assume c: "canvas_size stitches sc = Some (w, h)"
  show "w = py_int (round_double (round_double (of_int (pattern_width stitches)) * sc))
                      + 2 * padding"
    using c by (rule canvas_size_Some(1))
  show "h = py_int (round_double (round_double (of_int (pattern_height stitches)) * sc))
                      + 2 * padding"
    using c by (rule canvas_size_Some(2))
  show "\<forall>s \<in> set stitches. 2 \<le> length s \<longrightarrow>
                    (\<exists>x y. adjusted stitches sc s = Some (x, y)
                       \<and> 0 \<le> x \<and> x < w \<and> 0 \<le> y \<and> y < h)"
    using adjusted_in_canvas [OF _ _ nn c] by blast
  assume "new_image lib (w, h) \<and> save_jpeg lib (w, h)"
  then show "\<exists>pn. draw_loop stitches sc 0 stitches initial_pen = Some pn
                       \<and> convert_pes_to_jpg lib image_size stitches =
                           Inr (Some \<lparr>img_width = w, img_height = h, lines = drawn pn\<rparr>)"
    using convert_total [OF assms(1) sc nn c] by blast
next
  fix img
  assume "convert_pes_to_jpg lib image_size stitches = Inr (Some img)"
  from render_Some [OF convert_Some(1) [OF this]]
  show "\<exists>sc. scale image_size stitches = Some sc
             \<and> canvas_size stitches sc = Some (img_width img, img_height img)"
    by blast
next
  assume b: "fst image_size < 2 ^ 1000 \<and> snd image_size < 2 ^ 1000
          \<and> pattern_width stitches < 2 ^ 1000 \<and> pattern_height stitches < 2 ^ 1000"
  from scale_total [OF assms(2,3)] b obtain sc where sc: "scale image_size stitches = Some sc"
    by blast
  have "0 \<le> sc" using sc assms(2,3) by (rule scale_nonneg)
  moreover have "sc \<le> 1" using sc by (rule scale_le_1)
  ultimately obtain w h where "canvas_size stitches sc = Some (w, h)"
    using canvas_size_total [OF _ _ assms(1)] b by blast
  with sc show "\<exists>sc w h. scale image_size stitches = Some sc
             \<and> canvas_size stitches sc = Some (w, h)"
    by blast
qed

theorem scale_and_canvas_witness:
  "x_coords [[0, 0, 0], [1161, 1, 0]] \<noteq> []
   \<and> 2 * padding \<le> fst (800 :: int, 600 :: int) \<and> 2 * padding \<le> snd (800 :: int, 600 :: int)
   \<and> scale (800, 600) [[0, 0, 0], [1161, 1, 0]] = Some (5430697225080701 / 9007199254740992)
   \<and> (5430697225080701 / 9007199254740992 :: rat) \<le> 1
   \<and> 0 < pattern_width [[0, 0, 0], [1161, 1, 0]] \<and> 0 < pattern_height [[0, 0, 0], [1161, 1, 0]]
   \<and> (5430697225080701 / 9007199254740992 :: rat)
        = round_double (Min {of_int (fst (800 :: int, 600 :: int) - 2 * padding)
                               / of_int (pattern_width [[0, 0, 0], [1161, 1, 0]]),
                             of_int (snd (800 :: int, 600 :: int) - 2 * padding)
                               / of_int (pattern_height [[0, 0, 0], [1161, 1, 0]]), 1})
   \<and> canvas_size [[0, 0, 0], [1161, 1, 0]] (5430697225080701 / 9007199254740992) = Some (799, 100)
   \<and> [1161, 1, 0 :: int] \<in> set [[0, 0, 0], [1161, 1, 0]] \<and> 2 \<le> length [1161, 1, 0 :: int]
   \<and> adjusted [[0, 0, 0], [1161, 1, 0]] (5430697225080701 / 9007199254740992) [1161, 1, 0]
        = Some (749, 50)
   \<and> new_image plain_pillow (799, 100) \<and> save_jpeg plain_pillow (799, 100)
   \<and> convert_pes_to_jpg plain_pillow (800, 600) [[0, 0, 0], [1161, 1, 0]] =
       Inr (Some \<lparr>img_width = 799, img_height = 100,
         lines = [\<lparr>src = 0, dst = 1, p0 = (50, 50), p1 = (749, 50), fill = ''black''\<rparr>]\<rparr>)
   \<and> fst (800 :: int, 600 :: int) < 2 ^ 1000 \<and> snd (800 :: int, 600 :: int) < 2 ^ 1000
   \<and> pattern_width [[0, 0, 0], [1161, 1, 0]] < 2 ^ 1000
   \<and> pattern_height [[0, 0, 0], [1161, 1, 0]] < 2 ^ 1000
   \<and> x_coords [[0, 0, 0], [70, 0, 0]] \<noteq> []
   \<and> pattern_height [[0, 0, 0], [70, 0, 0]] = 0
   \<and> scale (800, 600) [[0, 0, 0], [70, 0, 0]] = Some 1"
proof -
  let ?A = "[[0, 0, 0], [1161, 1, 0]] :: stitch list"
  let ?B = "[[0, 0, 0], [70, 0, 0]] :: stitch list"
  let ?sc = "5430697225080701 / 9007199254740992 :: rat"
  have h1: "x_coords ?A \<noteq> []" by code_simp
  have h2: "2 * padding \<le> fst (800 :: int, 600 :: int)" by (simp add: padding_def)
  have h3: "2 * padding \<le> snd (800 :: int, 600 :: int)" by (simp add: padding_def)
  have sc: "scale (800, 600) ?A = Some ?sc" by code_simp
  have pw: "pattern_width ?A = 1161" by code_simp
  have ph: "pattern_height ?A = 1" by code_simp
  have p: "0 < pattern_width ?A \<and> 0 < pattern_height ?A" by (simp add: pw ph)
  have c: "canvas_size ?A ?sc = Some (799, 100)" by code_simp
  have m: "[1161, 1, 0 :: int] \<in> set ?A" by simp
  have l: "2 \<le> length [1161, 1, 0 :: int]" by simp
  have a: "adjusted ?A ?sc [1161, 1, 0] = Some (749, 50)" by code_simp
  have n: "new_image plain_pillow (799, 100) \<and> save_jpeg plain_pillow (799, 100)"
    by (simp add: plain_pillow_def)
  have i: "convert_pes_to_jpg plain_pillow (800, 600) ?A =
       Inr (Some \<lparr>img_width = 799, img_height = 100,
         lines = [\<lparr>src = 0, dst = 1, p0 = (50, 50), p1 = (749, 50), fill = ''black''\<rparr>]\<rparr>)"
    by code_simp
  have b: "fst (800 :: int, 600 :: int) < 2 ^ 1000 \<and> snd (800 :: int, 600 :: int) < 2 ^ 1000
      \<and> pattern_width ?A < 2 ^ 1000 \<and> pattern_height ?A < 2 ^ 1000"
    by (simp add: pw ph)
  note t = scale_and_canvas [OF h1 h2 h3, of plain_pillow]
  note x = mp [OF spec [OF conjunct1 [OF t]] sc]
  note le = conjunct1 [OF x]
  note r = conjunct2 [OF mp [OF conjunct1 [OF conjunct2 [OF x]] p]]
  have g1: "x_coords ?B \<noteq> []" by code_simp
  have gz: "pattern_height ?B = 0" by code_simp
  have gw: "pattern_width ?B = 70" by code_simp
  have gb: "fst (800 :: int, 600 :: int) < 2 ^ 1000 \<and> snd (800 :: int, 600 :: int) < 2 ^ 1000
      \<and> pattern_width ?B < 2 ^ 1000 \<and> pattern_height ?B < 2 ^ 1000"
    by (simp add: gw gz)
  note u = scale_and_canvas [OF g1 h2 h3, of plain_pillow]
  from mp [OF conjunct2 [OF conjunct2 [OF u]] gb] obtain s where
    s: "scale (800, 600) ?B = Some s" by (elim exE conjE)
  note y = mp [OF spec [OF conjunct1 [OF u]] s]
  have "s = 1" by (rule mp [OF conjunct1 [OF conjunct2 [OF conjunct2 [OF y]]] disjI2 [OF gz]])
  with s have one: "scale (800, 600) ?B = Some 1" by simp
  show ?thesis
    by (intro conjI h1 h2 h3 sc le conjunct1 [OF p] conjunct2 [OF p] r c m l a
        conjunct1 [OF n] conjunct2 [OF n] i conjunct1 [OF b] conjunct1 [OF conjunct2 [OF b]]
        conjunct1 [OF conjunct2 [OF conjunct2 [OF b]]] conjunct2 [OF conjunct2 [OF conjunct2 [OF b]]]
        g1 gz one)
qed

text \<open>
  C8 (as the code has it).  A trim or stop command breaks the line: a line segment of
  the rendered image that ends after a trim or stop command also starts after it, at
  the transformed point of the last command with coordinates before its end, which
  is not a trim or stop; so no segment connects a point at or before the command with
  a point after it, and the first command with coordinates after the trim or stop
  draws nothing.
\<close>

theorem trim_breaks_continuity:
  assumes "convert_pes_to_jpg lib image_size stitches = Inr (Some img)"
    and "l \<in> set (lines img)"
    and "k < dst l"
    and "2 < length (stitches ! k)"
    and "stitches ! k ! 2 = TRIM \<or> stitches ! k ! 2 = STOP"
  shows "k < src l \<and> src l < dst l \<and> dst l \<noteq> Suc k \<and> dst l < length stitches
    \<and> 2 \<le> length (stitches ! src l) \<and> \<not> is_break (stitches ! src l)
    \<and> (\<forall>m. src l < m \<and> m < dst l \<longrightarrow> length (stitches ! m) < 2)
    \<and> is_stitch (stitches ! dst l)
    \<and> (\<exists>sc. scale image_size stitches = Some sc
          \<and> adjusted stitches sc (stitches ! src l) = Some (p0 l)
          \<and> adjusted stitches sc (stitches ! dst l) = Some (p1 l))"
proof -
  from rendered_invariant [OF assms(1)] obtain sc pn where
    sc: "scale image_size stitches = Some sc" and d: "lines img = drawn pn"
    and inv: "pen_inv stitches sc (length stitches) pn"
    by blast
  from inv assms(2) have a: "anchor_ok stitches (src l) (dst l)"
    and n: "dst l < length stitches" and s: "is_stitch (stitches ! dst l)"
    and p: "adjusted stitches sc (stitches ! src l) = Some (p0 l)"
      "adjusted stitches sc (stitches ! dst l) = Some (p1 l)"
    by (simp_all add: pen_inv_def d)
  have b: "is_break (stitches ! k)" using assms(4,5) by (simp add: is_break_def)
  have "\<not> src l < k" using a assms(3,4) by (auto simp: anchor_ok_def)
  moreover have "src l \<noteq> k" using a b by (auto simp: anchor_ok_def)
  ultimately have k: "k < src l" by simp
  have lt: "src l < dst l" using a by (simp add: anchor_ok_def)
  have c: "2 \<le> length (stitches ! src l)" "\<not> is_break (stitches ! src l)"
    "\<forall>m. src l < m \<and> m < dst l \<longrightarrow> length (stitches ! m) < 2"
    using a by (simp_all add: anchor_ok_def)
  have "dst l \<noteq> Suc k" using k lt by simp
  with k lt n c s sc p show ?thesis by blast
qed

theorem trim_breaks_continuity_witness:
  "convert_pes_to_jpg plain_pillow (800, 600)
       [[0, 0, 0], [10, 0, 0], [10, 0, 2], [20, 0, 0], [30, 0, 0]] =
     Inr (Some \<lparr>img_width = 130, img_height = 100,
       lines = [\<lparr>src = 0, dst = 1, p0 = (50, 50), p1 = (60, 50), fill = ''black''\<rparr>,
                \<lparr>src = 3, dst = 4, p0 = (70, 50), p1 = (80, 50), fill = ''black''\<rparr>]\<rparr>)
   \<and> [[0, 0, 0], [10, 0, 0], [10, 0, 2], [20, 0, 0], [30, 0, 0]] ! 2 ! 2 = TRIM
   \<and> (2::nat) < 3 \<and> (3::nat) < 4 \<and> (4::nat) \<noteq> Suc 2
   \<and> \<not> is_break ([[0, 0, 0], [10, 0, 0], [10, 0, 2], [20, 0, 0], [30, 0, 0]] ! 3)
   \<and> is_stitch ([[0, 0, 0], [10, 0, 0], [10, 0, 2], [20, 0, 0], [30, 0, 0]] ! 4)"
proof -
  let ?l = "\<lparr>src = 3, dst = 4, p0 = (70, 50), p1 = (80, 50), fill = ''black''\<rparr>"
  let ?img = "\<lparr>img_width = 130, img_height = 100,
       lines = [\<lparr>src = 0, dst = 1, p0 = (50, 50), p1 = (60, 50), fill = ''black''\<rparr>, ?l]\<rparr>"
  let ?st = "[[0, 0, 0], [10, 0, 0], [10, 0, 2], [20, 0, 0], [30, 0, 0]] :: stitch list"
  have h1: "convert_pes_to_jpg plain_pillow (800, 600) ?st = Inr (Some ?img)" by code_simp
  have h2: "?l \<in> set (lines ?img)" by simp
  have h3: "2 < dst ?l" by simp
  have h4: "2 < length (?st ! 2)" by simp
  have t: "?st ! 2 ! 2 = TRIM" by (simp add: TRIM_def)
  then have h5: "?st ! 2 ! 2 = TRIM \<or> ?st ! 2 ! 2 = STOP" by (rule disjI1)
  from trim_breaks_continuity [OF h1 h2 h3 h4 h5]
  have "2 < src ?l \<and> src ?l < dst ?l \<and> dst ?l \<noteq> Suc 2
     \<and> \<not> is_break (?st ! src ?l) \<and> is_stitch (?st ! dst ?l)"
    by blast
  then have "(2::nat) < 3 \<and> (3::nat) < 4 \<and> (4::nat) \<noteq> Suc 2
     \<and> \<not> is_break (?st ! 3) \<and> is_stitch (?st ! 4)"
    by simp
  with h1 t show ?thesis by blast
qed

text \<open>
  The first draw-segment after a trim does draw when a jump (or a colour change) has
  set a new anchor in between: in the design below the trim at position 2 is followed
  by a jump at position 3, and the stitch at position 4, the first draw-segment after
  the trim, draws the line from the jump's point (70, 50) to its own point (80, 50).
  The line starts after the trim, as the theorem above says.
\<close>

theorem first_stitch_after_trim_draws_counterexample:
  "convert_pes_to_jpg plain_pillow (800, 600)
       [[0, 0, 0], [10, 0, 0], [10, 0, 2], [20, 0, 1], [30, 0, 0]] =
     Inr (Some \<lparr>img_width = 130, img_height = 100,
       lines = [\<lparr>src = 0, dst = 1, p0 = (50, 50), p1 = (60, 50), fill = ''black''\<rparr>,
                \<lparr>src = 3, dst = 4, p0 = (70, 50), p1 = (80, 50), fill = ''black''\<rparr>]\<rparr>)
   \<and> [[0, 0, 0], [10, 0, 0], [10, 0, 2], [20, 0, 1], [30, 0, 0]] ! 2 ! 2 = TRIM
   \<and> [[0, 0, 0], [10, 0, 0], [10, 0, 2], [20, 0, 1], [30, 0, 0]] ! 3 ! 2 = JUMP
   \<and> [[0, 0, 0], [10, 0, 0], [10, 0, 2], [20, 0, 1], [30, 0, 0]] ! 4 ! 2 = STITCH"
  by code_simp

text \<open>
  C5 (as the code has it).  Let the command at position \<open>k\<close> of the stitch list,
  counted from 0 as \<open>enumerate\<close> does, be a colour change, in a conversion that
  returned an image.  The drawing loop reaches it with the index \<open>k\<close>, after the
  commands before it; its step makes the stroke colour the palette entry
  \<open>(k div 100) mod 6\<close>, sets the anchor to the transformed point of the command and
  draws nothing; the rest of the loop continues from there to the lines of the image.
  Hence no line of the image ends at \<open>k\<close>, a line that ends after \<open>k\<close> does not start
  before \<open>k\<close> and starts at the point of the command when it starts at \<open>k\<close>, and a line
  that ends after \<open>k\<close> with no colour change between \<open>k\<close> and its end has that palette
  entry as its colour.
\<close>

theorem color_change_at_position:
  assumes "convert_pes_to_jpg lib image_size stitches = Inr (Some img)"
    and "k < length stitches"
    and "2 < length (stitches ! k)" and "stitches ! k ! 2 = COLOR_CHANGE"
  shows "\<exists>sc before pt finished.
       scale image_size stitches = Some sc
     \<and> draw_loop stitches sc 0 (take k stitches) initial_pen = Some before
     \<and> adjusted stitches sc (stitches ! k) = Some pt
     \<and> draw_step stitches sc k (stitches ! k) before =
         Some (before\<lparr>stitch_color := colors ! ((k div 100) mod 6),
                      prev_point := Some (k, pt)\<rparr>)
     \<and> draw_loop stitches sc (Suc k) (drop (Suc k) stitches)
         (before\<lparr>stitch_color := colors ! ((k div 100) mod 6),
                 prev_point := Some (k, pt)\<rparr>) = Some finished
     \<and> lines img = drawn finished
     \<and> (\<forall>l \<in> set (lines img).
           dst l \<noteq> k
         \<and> (k < dst l \<longrightarrow> k \<le> src l \<and> (src l = k \<longrightarrow> p0 l = pt))
         \<and> (k < dst l \<and> (\<forall>m. k < m \<and> m < dst l \<longrightarrow> \<not> is_color_change (stitches ! m)) \<longrightarrow>
              fill l = colors ! ((k div 100) mod 6)))"
proof -
  let ?c = "stitches ! k"
  from rendered_invariant [OF assms(1)] obtain sc pn where
    sc: "scale image_size stitches = Some sc"
    and loop: "draw_loop stitches sc 0 stitches initial_pen = Some pn"
    and d: "lines img = drawn pn"
    and inv: "pen_inv stitches sc (length stitches) pn"
    by blast
  have cc: "is_color_change ?c" using assms(3,4) by (simp add: is_color_change_def)
  have split: "stitches = take k stitches @ ?c # drop (Suc k) stitches"
    using assms(2) by (rule id_take_nth_drop)
  have len: "length (take k stitches) = k" using assms(2) by simp
  have "draw_loop stitches sc 0 (take k stitches @ ?c # drop (Suc k) stitches) initial_pen = Some pn"
    using loop split by simp
  then obtain before where b: "draw_loop stitches sc 0 (take k stitches) initial_pen = Some before"
    and r: "draw_loop stitches sc k (?c # drop (Suc k) stitches) before = Some pn"
    unfolding draw_loop_append len by (auto split: option.splits)
  from r obtain after where st: "draw_step stitches sc k ?c before = Some after"
    and f: "draw_loop stitches sc (Suc k) (drop (Suc k) stitches) after = Some pn"
    by (auto split: option.splits)
  have "2 \<le> length ?c" using assms(3) by simp
  from draw_step_adjusted [OF this st] obtain pt where pt: "adjusted stitches sc ?c = Some pt"
    by blast
  note e = draw_step_color_change [OF cc pt, of k before]
  have a: "after = before\<lparr>stitch_color := colors ! ((k div 100) mod 6),
                      prev_point := Some (k, pt)\<rparr>"
    using st e by simp
  have props: "dst l \<noteq> k
         \<and> (k < dst l \<longrightarrow> k \<le> src l \<and> (src l = k \<longrightarrow> p0 l = pt))
         \<and> (k < dst l \<and> (\<forall>m. k < m \<and> m < dst l \<longrightarrow> \<not> is_color_change (stitches ! m)) \<longrightarrow>
              fill l = colors ! ((k div 100) mod 6))"
    if l: "l \<in> set (lines img)" for l
  proof -
    from inv l have an: "anchor_ok stitches (src l) (dst l)"
      and s: "is_stitch (stitches ! dst l)"
      and p: "adjusted stitches sc (stitches ! src l) = Some (p0 l)"
      and co: "color_ok stitches (dst l) (fill l)"
      by (simp_all add: pen_inv_def d)
    have "\<not> is_stitch ?c" using assms(3,4) by (simp add: is_stitch_def command_defs)
    with s have n: "dst l \<noteq> k" by auto
    have g: "k \<le> src l \<and> (src l = k \<longrightarrow> p0 l = pt)" if "k < dst l"
    proof -
      have "\<not> src l < k" using an that assms(3) by (auto simp: anchor_ok_def)
      then show ?thesis using p pt by auto
    qed
    have "fill l = colors ! ((k div 100) mod 6)"
      if "k < dst l" "\<forall>m. k < m \<and> m < dst l \<longrightarrow> \<not> is_color_change (stitches ! m)"
      using co that(1) cc that(2) by (rule color_ok_unique)
    with n g show ?thesis by blast
  qed
  show ?thesis
    using sc b pt e f [unfolded a] d props by blast
qed

theorem color_change_at_position_witness:
  "convert_pes_to_jpg plain_pillow (800, 600)
       (replicate 100 [0, 0, 1] @ [[10, 0, 5], [20, 0, 0]]) =
     Inr (Some \<lparr>img_width = 120, img_height = 100,
        lines = [\<lparr>src = 100, dst = 101, p0 = (60, 50), p1 = (70, 50), fill = ''red''\<rparr>]\<rparr>)
   \<and> 100 < length (replicate 100 [0, 0, 1] @ [[10, 0, 5], [20, 0, 0 :: int]])
   \<and> 2 < length ((replicate 100 [0, 0, 1] @ [[10, 0, 5], [20, 0, 0 :: int]]) ! 100)
   \<and> (replicate 100 [0, 0, 1] @ [[10, 0, 5], [20, 0, 0]]) ! 100 ! 2 = COLOR_CHANGE
   \<and> ''red'' = colors ! ((100 div 100) mod 6)"
proof -
  let ?st = "replicate 100 [0, 0, 1] @ [[10, 0, 5], [20, 0, 0]] :: stitch list"
  let ?l = "\<lparr>src = 100, dst = 101, p0 = (60, 50), p1 = (70, 50), fill = ''red''\<rparr>"
  let ?img = "\<lparr>img_width = 120, img_height = 100, lines = [?l]\<rparr>"
  have h1: "convert_pes_to_jpg plain_pillow (800, 600) ?st = Inr (Some ?img)" by code_simp
  have h2: "100 < length ?st" by simp
  have n: "?st ! 100 = [10, 0, 5]" by (simp add: nth_append)
  have h3: "2 < length (?st ! 100)" unfolding n by simp
  have h4: "?st ! 100 ! 2 = COLOR_CHANGE" unfolding n by (simp add: COLOR_CHANGE_def)
  from color_change_at_position [OF h1 h2 h3 h4]
  have a: "\<forall>l \<in> set (lines ?img).
          100 < dst l \<and> (\<forall>m. 100 < m \<and> m < dst l \<longrightarrow> \<not> is_color_change (?st ! m)) \<longrightarrow>
              fill l = colors ! ((100 div 100) mod 6)"
    by blast
  have m: "?l \<in> set (lines ?img)" by simp
  have k: "100 < dst ?l" by simp
  have v: "\<forall>m. 100 < m \<and> m < dst ?l \<longrightarrow> \<not> is_color_change (?st ! m)" by auto
  from mp [OF bspec [OF a m] conjI [OF k v]]
  have "''red'' = colors ! ((100 div 100) mod 6)" by simp
  with h1 h2 h3 h4 show ?thesis by blast
qed

text \<open>
  The palette index is not a count of colour changes: in a design with two colour
  changes among its first hundred commands every segment is drawn in black, the
  palette entry 0, although the entries 1 and 2 are other colours.
\<close>

theorem color_change_counter_counterexample:
  "convert_pes_to_jpg plain_pillow (800, 600)
       [[0, 0, 0], [10, 0, 0], [10, 0, 5], [20, 0, 0], [20, 0, 5], [30, 0, 0]] =
     Inr (Some \<lparr>img_width = 130, img_height = 100,
       lines = [\<lparr>src = 0, dst = 1, p0 = (50, 50), p1 = (60, 50), fill = ''black''\<rparr>,
                \<lparr>src = 2, dst = 3, p0 = (60, 50), p1 = (70, 50), fill = ''black''\<rparr>,
                \<lparr>src = 4, dst = 5, p0 = (70, 50), p1 = (80, 50), fill = ''black''\<rparr>]\<rparr>)
   \<and> [[0, 0, 0], [10, 0, 0], [10, 0, 5], [20, 0, 0], [20, 0, 5], [30, 0, 0]] ! 2 ! 2 = COLOR_CHANGE
   \<and> [[0, 0, 0], [10, 0, 0], [10, 0, 5], [20, 0, 0], [20, 0, 5], [30, 0, 0]] ! 4 ! 2 = COLOR_CHANGE
   \<and> colors ! (1 mod 6) = ''red'' \<and> colors ! (2 mod 6) = ''blue''"
  by code_simp

section \<open>Facts and claims about the classification client and the orchestrator\<close>

lemma other_ok: "Category_init ''other'' 1 = Inr (Category ''other'' 1)"
  by code_simp

lemma retry_loop_returns: "\<exists>x. retry_loop r mr as = Inr x"
  by (induction as) (auto simp: other_ok split: sum.splits)


lemma strategy_returns: "\<exists>x. strategy_categorize_image e rd r mr = Inr x"
  using retry_loop_returns [of r mr "py_range mr"]
  by (auto simp: strategy_categorize_image_def other_ok)




lemma psf_not_rendered:
  assumes "convert_result w i \<noteq> Inr True"
  shows "process_single_file w f i st =
     (Inr False, f,
      st\<lparr>temp_images := temp_images st @ [create_temp_jpg_path w (file_name f)],
         calls := calls st @ [ConvertCall i (file_name f)]\<rparr>)"
  using assms
  by (auto simp: process_single_file_def process_body_def Let_def split: sum.splits bool.splits)

lemma psf_probe_fails:
  assumes "convert_result w i = Inr True" "\<not> probe w i"
  shows "process_single_file w f i st =
     (Inr False, f\<lparr>jpg_path := Some (create_temp_jpg_path w (file_name f))\<rparr>,
      st\<lparr>temp_images := temp_images st @ [create_temp_jpg_path w (file_name f)],
         disk := insert (create_temp_jpg_path w (file_name f)) (disk st),
         calls := calls st @ [ConvertCall i (file_name f), CategorizeCall i (file_name f)]\<rparr>)"
  using assms
  by (simp add: process_single_file_def process_body_def Let_def context_categorize_image_def)

lemma psf_rendered:
  assumes "convert_result w i = Inr True" "probe w i"
    and "strategy_categorize_image True (image_readable w i) (response w i) (max_retries w) = Inr x"
  shows "process_single_file w f i st =
     (Inr (copy_result w i (name (case x of Some c \<Rightarrow> c | None \<Rightarrow> Category ''other'' 1)) = Inr True),
      f\<lparr>jpg_path := Some (create_temp_jpg_path w (file_name f)),
        category := Some (case x of Some c \<Rightarrow> c | None \<Rightarrow> Category ''other'' 1)\<rparr>,
      st\<lparr>temp_images := temp_images st @ [create_temp_jpg_path w (file_name f)],
         disk := insert (create_temp_jpg_path w (file_name f)) (disk st),
         calls := calls st @
           [ConvertCall i (file_name f), CategorizeCall i (file_name f),
            CopyCall i (file_name f)
              (name (case x of Some c \<Rightarrow> c | None \<Rightarrow> Category ''other'' 1))]\<rparr>)"
  using assms
  by (cases x)
     (auto simp: process_single_file_def process_body_def Let_def context_categorize_image_def
        other_ok split: sum.splits bool.splits)





lemma psf_props:
  "\<exists>b f' st' evs. process_single_file w f i st = (Inr b, f', st')
     \<and> temp_images st' = temp_images st @ [create_temp_jpg_path w (file_name f)]
     \<and> disk st \<subseteq> disk st'
     \<and> calls st' = calls st @ evs \<and> (\<forall>e \<in> set evs. call_ordinal e = Some i)"
proof (cases "convert_result w i = Inr True")
  case False
  show ?thesis unfolding psf_not_rendered [OF False] by (auto simp: call_ordinal_def)
next
  case True
  show ?thesis
  proof (cases "probe w i")
    case False
    show ?thesis unfolding psf_probe_fails [OF True False] by (auto simp: call_ordinal_def)
  next
    case p: True
    obtain x where x: "strategy_categorize_image True (image_readable w i) (response w i)
        (max_retries w) = Inr x"
      using strategy_returns by blast
    show ?thesis unfolding psf_rendered [OF True p x] by (auto simp: call_ordinal_def)
  qed
qed

lemma loop_step_skipped: "skipped sa i \<Longrightarrow> loop_step w sa acc (i, f) = acc"
  by (simp add: loop_step_def skipped_def Let_def)

lemma loop_step_not_skipped:
  "\<not> skipped sa i \<Longrightarrow> loop_step w sa acc (i, f) = loop_step w None acc (i, f)"
  by (simp add: loop_step_def skipped_def Let_def)

lemma loop_step_props:
  "\<exists>res' st' evs. loop_step w None (res, st) (i, f) = (res', st')
     \<and> errors res' = errors res \<and> total_files res' = total_files res
     \<and> skipped_files res' = skipped_files res
     \<and> processed_files res' + failed_files res' = Suc (processed_files res + failed_files res)
     \<and> temp_images st' = temp_images st @ [create_temp_jpg_path w (file_name f)]
     \<and> disk st \<subseteq> disk st'
     \<and> calls st' = calls st @ evs \<and> (\<forall>e \<in> set evs. call_ordinal e = Some i)"
proof -
  obtain b f' st' evs where p: "process_single_file w f i st = (Inr b, f', st')"
    and q: "temp_images st' = temp_images st @ [create_temp_jpg_path w (file_name f)]"
      "disk st \<subseteq> disk st'" "calls st' = calls st @ evs" "\<forall>e \<in> set evs. call_ordinal e = Some i"
    using psf_props [of w f i st] by blast
  show ?thesis using q by (cases b) (simp_all add: loop_step_def Let_def p)
qed

lemma batch_loop_props:
  "\<exists>res' st' evs. batch_loop w None items (res, st) = (res', st')
     \<and> errors res' = errors res \<and> total_files res' = total_files res
     \<and> skipped_files res' = skipped_files res
     \<and> processed_files res' + failed_files res' = processed_files res + failed_files res + length items
     \<and> temp_images st' = temp_images st @ map (preview_of w) items
     \<and> disk st \<subseteq> disk st'
     \<and> calls st' = calls st @ evs \<and> (\<forall>e \<in> set evs. \<exists>i \<in> fst ` set items. call_ordinal e = Some i)"
proof (induction items arbitrary: res st)
  case Nil
  show ?case by (simp add: batch_loop_def)
next
  case (Cons item items)
  obtain i f where item: "item = (i, f)" by (cases item)
  obtain res1 st1 evs1 where s: "loop_step w None (res, st) (i, f) = (res1, st1)"
    and s1: "errors res1 = errors res" "total_files res1 = total_files res"
      "skipped_files res1 = skipped_files res"
      "processed_files res1 + failed_files res1 = Suc (processed_files res + failed_files res)"
      "temp_images st1 = temp_images st @ [create_temp_jpg_path w (file_name f)]"
      "disk st \<subseteq> disk st1" "calls st1 = calls st @ evs1"
      "\<forall>e \<in> set evs1. call_ordinal e = Some i"
    using loop_step_props [of w res st i f] by blast
  obtain res2 st2 evs2 where t: "batch_loop w None items (res1, st1) = (res2, st2)"
    and t1: "errors res2 = errors res1" "total_files res2 = total_files res1"
      "skipped_files res2 = skipped_files res1"
      "processed_files res2 + failed_files res2 = processed_files res1 + failed_files res1 + length items"
      "temp_images st2 = temp_images st1 @ map (preview_of w) items"
      "disk st1 \<subseteq> disk st2" "calls st2 = calls st1 @ evs2"
      "\<forall>e \<in> set evs2. \<exists>i \<in> fst ` set items. call_ordinal e = Some i"
    using Cons.IH [of res1 st1] by blast
  have b: "batch_loop w None (item # items) (res, st) = (res2, st2)"
    using s t by (simp add: batch_loop_def item)
  have c: "calls st2 = calls st @ (evs1 @ evs2)" by (simp add: t1 s1)
  have d: "\<forall>e \<in> set (evs1 @ evs2). \<exists>i \<in> fst ` set (item # items). call_ordinal e = Some i"
    using s1(8) t1(8) by (auto simp: item)
  have e: "processed_files res2 + failed_files res2 =
      processed_files res + failed_files res + length (item # items)"
    using s1(4) t1(4) by simp
  have g: "temp_images st2 = temp_images st @ map (preview_of w) (item # items)"
    by (simp add: t1 s1 preview_of_def item)
  have h: "disk st \<subseteq> disk st2" using s1(6) t1(6) by blast
  show ?case unfolding b using c d e g h by (simp add: t1 s1)
qed

lemma batch_loop_all_skipped:
  "\<forall>item \<in> set items. skipped sa (fst item) \<Longrightarrow> batch_loop w sa items acc = acc"
proof (induction items arbitrary: acc)
  case Nil show ?case by (simp add: batch_loop_def)
next
  case (Cons item items)
  obtain i f where item: "item = (i, f)" by (cases item)
  have "loop_step w sa acc (i, f) = acc" using Cons.prems by (simp add: loop_step_skipped item)
  then show ?case using Cons by (simp add: batch_loop_def item)
qed

lemma batch_loop_none_skipped:
  "\<forall>item \<in> set items. \<not> skipped sa (fst item) \<Longrightarrow>
     batch_loop w sa items acc = batch_loop w None items acc"
proof (induction items arbitrary: acc)
  case Nil show ?case by (simp add: batch_loop_def)
next
  case (Cons item items)
  obtain i f where item: "item = (i, f)" by (cases item)
  have "loop_step w sa acc (i, f) = loop_step w None acc (i, f)"
    using Cons.prems by (simp add: loop_step_not_skipped item)
  then show ?case using Cons by (simp add: batch_loop_def item)
qed

lemma batch_loop_append:
  "batch_loop w sa (xs @ ys) acc = batch_loop w sa ys (batch_loop w sa xs acc)"
  by (simp add: batch_loop_def)

lemma enumerate1_nth:
  "j < length xs \<Longrightarrow> enumerate1 xs ! j = (Suc j, xs ! j)"
  by (simp add: enumerate1_def del: upt_Suc)

lemma length_enumerate1: "length (enumerate1 xs) = length xs"
  by (simp add: enumerate1_def del: upt_Suc)

lemma enumerate1_take:
  assumes "item \<in> set (take k (enumerate1 xs))" shows "fst item \<le> k"
proof -
  from assms obtain j where j: "j < length (take k (enumerate1 xs))"
    and e: "take k (enumerate1 xs) ! j = item" by (auto simp: in_set_conv_nth)
  then have "j < k" "j < length xs" by (simp_all add: length_enumerate1)
  then have "item = (Suc j, xs ! j)" using e by (simp add: enumerate1_nth)
  then show ?thesis using \<open>j < k\<close> by simp
qed

lemma enumerate1_drop:
  assumes "item \<in> set (drop k (enumerate1 xs))" shows "k < fst item"
proof -
  from assms obtain j where j: "j < length (drop k (enumerate1 xs))"
    and e: "drop k (enumerate1 xs) ! j = item" by (auto simp: in_set_conv_nth)
  then have l: "k + j < length xs" by (simp add: length_enumerate1)
  then have "item = (Suc (k + j), xs ! (k + j))"
    using e by (simp add: enumerate1_nth length_enumerate1)
  then show ?thesis by simp
qed

lemma batch_loop_resume:
  assumes "0 \<le> n"
  shows "batch_loop w (Some n) (enumerate1 files) acc =
         batch_loop w None (drop (nat n) (enumerate1 files)) acc"
proof -
  let ?e = "enumerate1 files"
  have a: "\<forall>item \<in> set (take (nat n) ?e). skipped (Some n) (fst item)"
    using enumerate1_take [of _ "nat n" files] assms by (fastforce simp: skipped_def)
  have b: "\<forall>item \<in> set (drop (nat n) ?e). \<not> skipped (Some n) (fst item)"
    using enumerate1_drop [of _ "nat n" files] assms by (fastforce simp: skipped_def)
  have "batch_loop w (Some n) ?e acc =
        batch_loop w (Some n) (take (nat n) ?e @ drop (nat n) ?e) acc" by simp
  also have "\<dots> = batch_loop w (Some n) (drop (nat n) ?e) acc"
    unfolding batch_loop_append batch_loop_all_skipped [OF a] ..
  also have "\<dots> = batch_loop w None (drop (nat n) ?e) acc"
    by (rule batch_loop_none_skipped [OF b])
  finally show ?thesis .
qed


lemma batch_loop_filter:
  "batch_loop w sa items acc =
   batch_loop w None (filter (\<lambda>item. \<not> skipped sa (fst item)) items) acc"
proof (induction items arbitrary: acc)
  case Nil show ?case by (simp add: batch_loop_def)
next
  case (Cons item items)
  obtain i f where item: "item = (i, f)" by (cases item)
  show ?case
  proof (cases "skipped sa i")
    case True
    then have "loop_step w sa acc (i, f) = acc" by (rule loop_step_skipped)
    then have "batch_loop w sa (item # items) acc = batch_loop w sa items acc"
      by (simp add: batch_loop_def item)
    then show ?thesis using True Cons.IH [of acc] by (simp add: item)
  next
    case False
    then have s: "loop_step w sa acc (i, f) = loop_step w None acc (i, f)"
      by (rule loop_step_not_skipped)
    have "batch_loop w sa (item # items) acc = batch_loop w sa items (loop_step w None acc (i, f))"
      by (simp add: batch_loop_def item s)
    also have "\<dots> = batch_loop w None (filter (\<lambda>item. \<not> skipped sa (fst item)) items)
        (loop_step w None acc (i, f))" by (rule Cons.IH)
    finally show ?thesis using False by (simp add: item batch_loop_def)
  qed
qed

lemma categorize_unfold:
  assumes "available_at_start w" "find_pes_files w = Inr files" "files \<noteq> []"
  shows "categorize_files_in_directory w sa st =
     (fst (batch_loop w sa (enumerate1 files)
        (initial_results\<lparr>total_files := length files,
           skipped_files := (case sa of Some n \<Rightarrow> Some n | None \<Rightarrow> Some 0)\<rparr>, st)),
      cleanup_temp_images w (snd (batch_loop w sa (enumerate1 files)
        (initial_results\<lparr>total_files := length files,
           skipped_files := (case sa of Some n \<Rightarrow> Some n | None \<Rightarrow> Some 0)\<rparr>, st))))"
  using assms by (simp add: categorize_files_in_directory_def Let_def)

lemma calls_cleanup:
  "\<exists>evs. calls (cleanup_temp_images w st) = calls st @ evs \<and> (\<forall>e \<in> set evs. call_ordinal e = None)"
  by (simp add: cleanup_temp_images_def call_ordinal_def)

text \<open>
  C6 (as the code has it).  For a non-empty list of discovered files, an available
  backend and a resume index \<open>n > 0\<close>, the result records \<open>n\<close> as the skipped count,
  the run is the run without resume index over the files after the first \<open>n\<close>, the
  processed and failed counters add up to the number of those files, and every call to
  the converter, the classifier and the filesystem adapter is for a file with an
  ordinal above \<open>n\<close>.
\<close>

theorem resume_skips_leading_files:
  assumes "available_at_start w" and "find_pes_files w = Inr files" and "files \<noteq> []"
    and "0 < n"
  shows "skipped_files (fst (categorize_files_in_directory w (Some n) st)) = Some n
    \<and> fst (categorize_files_in_directory w (Some n) st) =
        fst (batch_loop w None (drop (nat n) (enumerate1 files))
          (initial_results\<lparr>total_files := length files, skipped_files := Some n\<rparr>, st))
    \<and> processed_files (fst (categorize_files_in_directory w (Some n) st))
        + failed_files (fst (categorize_files_in_directory w (Some n) st)) = length files - nat n
    \<and> (\<exists>evs. calls (snd (categorize_files_in_directory w (Some n) st)) = calls st @ evs
          \<and> (\<forall>e \<in> set evs. \<forall>i. call_ordinal e = Some i \<longrightarrow> nat n < i))"
proof -
  let ?r0 = "initial_results\<lparr>total_files := length files, skipped_files := Some n\<rparr>"
  let ?items = "drop (nat n) (enumerate1 files)"
  have n0: "0 \<le> n" using assms(4) by simp
  have u: "categorize_files_in_directory w (Some n) st =
     (fst (batch_loop w None ?items (?r0, st)),
      cleanup_temp_images w (snd (batch_loop w None ?items (?r0, st))))"
    unfolding categorize_unfold [OF assms(1-3)] batch_loop_resume [OF n0] by simp
  obtain res' st' evs where l: "batch_loop w None ?items (?r0, st) = (res', st')"
    and p: "skipped_files res' = skipped_files ?r0"
      "processed_files res' + failed_files res' =
         processed_files ?r0 + failed_files ?r0 + length ?items"
      "calls st' = calls st @ evs"
      "\<forall>e \<in> set evs. \<exists>i \<in> fst ` set ?items. call_ordinal e = Some i"
    using batch_loop_props [of w ?items ?r0 st] by blast
  obtain evc where c: "calls (cleanup_temp_images w st') = calls st' @ evc"
      "\<forall>e \<in> set evc. call_ordinal e = None"
    using calls_cleanup [of w st'] by blast
  have ord: "\<forall>e \<in> set (evs @ evc). \<forall>i. call_ordinal e = Some i \<longrightarrow> nat n < i"
  proof (intro ballI allI impI)
    fix e i assume e: "e \<in> set (evs @ evc)" and o: "call_ordinal e = Some i"
    from e c(2) o have "e \<in> set evs" by auto
    with p(4) o obtain item where "item \<in> set ?items" "fst item = i" by fastforce
    then show "nat n < i" using enumerate1_drop [of item "nat n" files] by simp
  qed
  have "calls (cleanup_temp_images w st') = calls st @ (evs @ evc)" by (simp add: c p)
  with ord have ex: "\<exists>evs. calls (cleanup_temp_images w st') = calls st @ evs
          \<and> (\<forall>e \<in> set evs. \<forall>i. call_ordinal e = Some i \<longrightarrow> nat n < i)" by blast
  have cnt: "processed_files res' + failed_files res' = length files - nat n"
    using p(2) by (simp add: initial_results_def length_enumerate1)
  have sk: "skipped_files res' = Some n" using p(1) by simp
  show ?thesis unfolding u l using sk cnt ex by simp
qed

theorem resume_skips_leading_files_witness:
  "available_at_start (calm_world [design ''a'', design ''b'', design ''c''])
   \<and> find_pes_files (calm_world [design ''a'', design ''b'', design ''c'']) =
       Inr [design ''a'', design ''b'', design ''c'']
   \<and> [design ''a'', design ''b'', design ''c''] \<noteq> [] \<and> (0::int) < 2
   \<and> skipped_files (fst (categorize_files_in_directory
         (calm_world [design ''a'', design ''b'', design ''c'']) (Some 2) idle)) = Some 2
   \<and> categorize_files_in_directory (calm_world [design ''a'', design ''b'', design ''c''])
         (Some 2) idle =
       (\<lparr>total_files = 3, processed_files = 1, failed_files = 0, categories_found = {''flowers''},
         errors = [], skipped_files = Some 2\<rparr>,
        \<lparr>temp_images = [], disk = {},
         calls = [ConvertCall 3 ''c'', CategorizeCall 3 ''c'', CopyCall 3 ''c'' ''flowers'',
                  CleanupCall [''/tmp/embroidery_categorizer/c.jpg'']]\<rparr>)"
proof -
  let ?fs = "[design ''a'', design ''b'', design ''c'']"
  have h1: "available_at_start (calm_world ?fs)" by (simp add: calm_world_def)
  have h2: "find_pes_files (calm_world ?fs) = Inr ?fs" by (simp add: calm_world_def)
  have h3: "?fs \<noteq> []" by simp
  have h4: "(0::int) < 2" by simp
  note t = resume_skips_leading_files [OF h1 h2 h3 h4, of idle, THEN conjunct1]
  have v: "categorize_files_in_directory (calm_world ?fs) (Some 2) idle =
       (\<lparr>total_files = 3, processed_files = 1, failed_files = 0, categories_found = {''flowers''},
         errors = [], skipped_files = Some 2\<rparr>,
        \<lparr>temp_images = [], disk = {},
         calls = [ConvertCall 3 ''c'', CategorizeCall 3 ''c'', CopyCall 3 ''c'' ''flowers'',
                  CleanupCall [''/tmp/embroidery_categorizer/c.jpg'']]\<rparr>)"
    by code_simp
  show ?thesis
    by (rule conjI [OF h1 conjI [OF h2 conjI [OF h3 conjI [OF h4 conjI [OF t v]]]]])
qed

text \<open>
  With no file discovered the service returns before the skipped count is set: the
  result has no skipped count at all, whatever the resume index.
\<close>

theorem empty_directory_records_no_skip_counterexample:
  "categorize_files_in_directory (calm_world []) (Some 3) idle =
     (\<lparr>total_files = 0, processed_files = 0, failed_files = 0, categories_found = {},
       errors = [], skipped_files = None\<rparr>, idle)"
  by code_simp

section \<open>Claims about the batch result\<close>

lemma psf_temp_images:
  "temp_images (snd (snd (process_single_file w f i st))) =
     temp_images st @ [create_temp_jpg_path w (file_name f)]"
  using psf_props [of w f i st] by auto

lemma loop_step_disk: "disk st \<subseteq> disk (snd (loop_step w sa (res, st) (i, f)))"
proof (cases "skipped sa i")
  case True
  then show ?thesis by (simp add: loop_step_skipped)
next
  case False
  show ?thesis unfolding loop_step_not_skipped [OF False]
    using loop_step_props [of w res st i f] by auto
qed

text \<open>
  C4 (as the code has it).  The preview path of a file is appended to the list of
  temporary images as soon as it is created, whatever the outcome of the file; an
  iteration of the loop deletes nothing; and the previews are deleted once, when the
  loop has ended: after the batch the list is empty and the preview of every file that
  was processed is gone from disk, where its unlink succeeds.
\<close>

theorem previews_removed_at_end_of_batch:
  "temp_images (snd (snd (process_single_file w f i st))) =
     temp_images st @ [create_temp_jpg_path w (file_name f)]
   \<and> disk st \<subseteq> disk (snd (loop_step w start_after (res, st) (i, f)))
   \<and> (available_at_start w \<and> find_pes_files w = Inr files \<and> (i, f) \<in> set (enumerate1 files)
        \<and> \<not> skipped start_after i \<and> unlink_ok w (create_temp_jpg_path w (file_name f)) \<longrightarrow>
        create_temp_jpg_path w (file_name f)
          \<notin> disk (snd (categorize_files_in_directory w start_after st))
        \<and> temp_images (snd (categorize_files_in_directory w start_after st)) = [])"
proof (intro conjI impI)
  show "temp_images (snd (snd (process_single_file w f i st))) =
     temp_images st @ [create_temp_jpg_path w (file_name f)]" by (rule psf_temp_images)
  show "disk st \<subseteq> disk (snd (loop_step w start_after (res, st) (i, f)))" by (rule loop_step_disk)
next
  assume a: "available_at_start w \<and> find_pes_files w = Inr files \<and> (i, f) \<in> set (enumerate1 files)
        \<and> \<not> skipped start_after i \<and> unlink_ok w (create_temp_jpg_path w (file_name f))"
  let ?p = "create_temp_jpg_path w (file_name f)"
  let ?r0 = "initial_results\<lparr>total_files := length files,
           skipped_files := (case start_after of Some n \<Rightarrow> Some n | None \<Rightarrow> Some 0)\<rparr>"
  let ?items = "filter (\<lambda>item. \<not> skipped start_after (fst item)) (enumerate1 files)"
  from a have ne: "files \<noteq> []" by (auto simp: enumerate1_def)
  from a have av: "available_at_start w" and fi: "find_pes_files w = Inr files" by simp_all
  have u: "categorize_files_in_directory w start_after st =
     (fst (batch_loop w None ?items (?r0, st)),
      cleanup_temp_images w (snd (batch_loop w None ?items (?r0, st))))"
    unfolding categorize_unfold [OF av fi ne] batch_loop_filter [of w start_after] by simp
  obtain res' st' where l: "batch_loop w None ?items (?r0, st) = (res', st')"
    and t: "temp_images st' = temp_images st @ map (preview_of w) ?items"
    using batch_loop_props [of w ?items ?r0 st] by blast
  have "(i, f) \<in> set ?items" using a by simp
  then have "preview_of w (i, f) \<in> preview_of w ` set ?items" by (rule imageI)
  then have "preview_of w (i, f) \<in> set (map (preview_of w) ?items)" by (simp only: set_map)
  then have m: "?p \<in> set (temp_images st')" by (simp add: t preview_of_def)
  then have n: "temp_images st' \<noteq> []" by auto
  have "?p \<in> set (filter (unlink_ok w) (temp_images st'))" using m a by simp
  then have "?p \<notin> disk (cleanup_temp_images w st')" using n by (simp add: cleanup_temp_images_def)
  moreover have "temp_images (cleanup_temp_images w st') = []"
    by (simp add: cleanup_temp_images_def)
  ultimately show "?p \<notin> disk (snd (categorize_files_in_directory w start_after st))"
    and "temp_images (snd (categorize_files_in_directory w start_after st)) = []"
    unfolding u l by simp_all
qed

theorem previews_removed_at_end_of_batch_witness:
  "available_at_start (calm_world [design ''a'', design ''b''])
   \<and> find_pes_files (calm_world [design ''a'', design ''b'']) = Inr [design ''a'', design ''b'']
   \<and> (1, design ''a'') \<in> set (enumerate1 [design ''a'', design ''b''])
   \<and> \<not> skipped None 1
   \<and> unlink_ok (calm_world [design ''a'', design ''b''])
        (create_temp_jpg_path (calm_world [design ''a'', design ''b'']) (file_name (design ''a'')))
   \<and> create_temp_jpg_path (calm_world [design ''a'', design ''b'']) (file_name (design ''a''))
        \<notin> disk (snd (categorize_files_in_directory (calm_world [design ''a'', design ''b'']) None idle))
   \<and> temp_images (snd (categorize_files_in_directory (calm_world [design ''a'', design ''b'']) None idle)) = []"
proof -
  let ?w = "calm_world [design ''a'', design ''b'']"
  have h: "available_at_start ?w \<and> find_pes_files ?w = Inr [design ''a'', design ''b'']
     \<and> (1, design ''a'') \<in> set (enumerate1 [design ''a'', design ''b''])
     \<and> \<not> skipped None 1
     \<and> unlink_ok ?w (create_temp_jpg_path ?w (file_name (design ''a'')))"
    by (simp add: calm_world_def enumerate1_def skipped_def)
  from previews_removed_at_end_of_batch [of ?w "design ''a''" 1 idle None initial_results
      "[design ''a'', design ''b'']"] h
  show ?thesis by blast
qed

text \<open>
  When the second of two files begins, the preview of the first is still on disk and
  still listed for cleanup.
\<close>

theorem preview_survives_until_batch_end_counterexample:
  "batch_loop (calm_world [design ''a'', design ''b'']) None
      (take 1 (enumerate1 [design ''a'', design ''b''])) (initial_results, idle)
   = (initial_results\<lparr>processed_files := 1, categories_found := {''flowers''}\<rparr>,
      \<lparr>temp_images = [''/tmp/embroidery_categorizer/a.jpg''],
       disk = {''/tmp/embroidery_categorizer/a.jpg''},
       calls = [ConvertCall 1 ''a'', CategorizeCall 1 ''a'', CopyCall 1 ''a'' ''flowers'']\<rparr>)"
  by code_simp

text \<open>
  C1 (as the code has it).  The success flag of the result is true exactly when the
  failed count is strictly below the total count, on every path of the use case; so a
  batch over zero files, where both counts are 0, reports no success.
\<close>

theorem success_iff_failed_less_total:
  "success (execute input_exists input_is_directory mkdir_error input_directory w start_after st)
     = (failed_files (batch (execute input_exists input_is_directory mkdir_error input_directory w
          start_after st))
        < total_files (batch (execute input_exists input_is_directory mkdir_error input_directory w
          start_after st)))
   \<and> (total_files (batch (execute input_exists input_is_directory mkdir_error input_directory w
          start_after st)) = 0 \<longrightarrow>
        \<not> success (execute input_exists input_is_directory mkdir_error input_directory w start_after st))"
  by (simp add: execute_def failure_def initial_results_def Let_def split: option.split)

theorem success_iff_failed_less_total_witness:
  "total_files (batch (execute True True None ''designs'' (calm_world []) None idle)) = 0
   \<and> \<not> success (execute True True None ''designs'' (calm_world []) None idle)"
proof -
  have h: "total_files (batch (execute True True None ''designs'' (calm_world []) None idle)) = 0"
    by code_simp
  from success_iff_failed_less_total [of True True None "''designs''" "calm_world []" None idle,
      THEN conjunct2] h
  show ?thesis by blast
qed

text \<open>
  A directory without candidate files: total 0, failed 0, and the success flag is
  false.
\<close>

theorem zero_files_not_success_counterexample:
  "execute True True None ''designs'' (calm_world []) None idle =
     \<lparr>success = False, error_key = None,
      batch = \<lparr>total_files = 0, processed_files = 0, failed_files = 0, categories_found = {},
               errors = [], skipped_files = None\<rparr>\<rparr>"
  by code_simp

lemma batch_never_records_errors:
  assumes "available_at_start w" "find_pes_files w = Inr files"
  shows "errors (fst (categorize_files_in_directory w start_after st)) = []"
proof (cases "files = []")
  case True
  then show ?thesis using assms
    by (simp add: categorize_files_in_directory_def initial_results_def)
next
  case False
  let ?r0 = "initial_results\<lparr>total_files := length files,
           skipped_files := (case start_after of Some n \<Rightarrow> Some n | None \<Rightarrow> Some 0)\<rparr>"
  let ?items = "filter (\<lambda>item. \<not> skipped start_after (fst item)) (enumerate1 files)"
  have "errors (fst (batch_loop w None ?items (?r0, st))) = errors ?r0"
    using batch_loop_props [of w ?items ?r0 st] by auto
  then show ?thesis
    unfolding categorize_unfold [OF assms False] batch_loop_filter [of w start_after]
    by (simp add: initial_results_def)
qed

text \<open>
  C2 (what the code does at the scenario of the specification).  Three designs: the
  first has no stitches, the second is classified as "flowers" and placed, the
  placement of the third fails.  Two files are counted as failed and the list of
  error messages stays empty.
\<close>

theorem failed_files_leave_no_error_entry:
  "fst (categorize_files_in_directory
     ((calm_world [design ''empty'', design ''rose'', design ''locked''])
        \<lparr>convert_result := (\<lambda>i. if i = 1 then Inr False else Inr True),
         copy_result := (\<lambda>i c. if i = 3 then Inr False else Inr True)\<rparr>) None idle)
   = \<lparr>total_files = 3, processed_files = 1, failed_files = 2, categories_found = {''flowers''},
      errors = [], skipped_files = Some 0\<rparr>"
  by code_simp


end
